theory Spec2Isabelle
  imports Main
begin

unbundle bit_operations_syntax

section \<open>The search system call (fs/read-write.c)\<close>

text \<open>
  C strings are modelled as \<open>string\<close> (a list of the bytes before the terminating NUL),
  so the test \<open>s[0] == '\0'\<close> of the source is \<open>s = []\<close> and \<open>s + 1\<close> is \<open>tl s\<close> on a
  non-empty string. A pointer that may be NULL is a \<open>string option\<close>.
\<close>

subsection \<open>Match outcomes and string helpers\<close>

datatype search_matched =
    SEARCH_MATCH_FAILURE
  | SEARCH_MATCH_PARTIAL
  | SEARCH_MATCH_SUCCESS
  | SEARCH_MATCH_OVERFLOW

text \<open>\<open>strchr(s, c)\<close> for a character \<open>c\<close> other than NUL: the suffix of \<open>s\<close> that starts at
  the first \<open>c\<close>, or NULL.\<close>

fun strchr :: "string \<Rightarrow> char \<Rightarrow> string option" where
  "strchr [] c = None"
| "strchr (x # xs) c = (if x = c then Some (x # xs) else strchr xs c)"

text \<open>\<open>strchrskip\<close>: \<open>s = strchr(s, c); if (s) s += 1; return s;\<close>\<close>

definition strchrskip :: "string \<Rightarrow> char \<Rightarrow> string option" where
  "strchrskip s c = (case strchr s c of None \<Rightarrow> None | Some t \<Rightarrow> Some (tl t))"

text \<open>\<open>ispattern\<close>: no forward slash at the start indicates a pattern; otherwise any of
  \<open>*\<close>, \<open>?\<close>, \<open>|\<close> does.\<close>

definition ispattern :: "string \<Rightarrow> bool" where
  "ispattern pattern =
     (case pattern of
        [] \<Rightarrow> True
      | c # _ \<Rightarrow>
          if c \<noteq> CHR ''/'' then True
          else list_ex (\<lambda>c. c = CHR ''*'' \<or> c = CHR ''?'' \<or> c = CHR ''|'') pattern)"

text \<open>The macro \<open>is_filename(c)\<close>, applied to the character a string pointer points at
  (NUL when the string is empty).\<close>

definition is_filename :: "string \<Rightarrow> bool" where
  "is_filename p = (case p of [] \<Rightarrow> False | c # _ \<Rightarrow> c \<noteq> CHR ''/'')"

subsection \<open>The segment matcher \<open>__match_pathname\<close>\<close>

text \<open>
  \<open>uu_match_pathname\<close> is the source's \<open>__match_pathname\<close> (an Isabelle name cannot start
  with an underscore): the test of the recursion count on entry. \<open>match_loop\<close> is its
  \<open>while (1) switch (pattern[0])\<close> loop, one equation per iteration, and \<open>match_star\<close> is
  the \<open>do ... while\<close> loop of the case \<open>'*'\<close>, called with the pattern already advanced
  past the star. The argument \<open>flags\<close> of the source is never read and is left out.
\<close>

function uu_match_pathname :: "int \<Rightarrow> string \<Rightarrow> string \<Rightarrow> search_matched"
  and match_loop :: "int \<Rightarrow> string \<Rightarrow> string \<Rightarrow> search_matched"
  and match_star :: "int \<Rightarrow> string \<Rightarrow> string \<Rightarrow> search_matched"
where
  "uu_match_pathname n pathname pattern =
     (if n \<ge> 8 then SEARCH_MATCH_OVERFLOW else match_loop n pathname pattern)"
| "match_loop n pathname [] =
     (if pathname = [] then SEARCH_MATCH_SUCCESS else SEARCH_MATCH_FAILURE)"
| "match_loop n pathname (c # pattern) =
     (if c = CHR ''*'' then match_star n pathname pattern
      else if c = CHR ''?'' then
        (if is_filename pathname then
           (let result = uu_match_pathname (n + 1) (tl pathname) pattern in
            if result \<noteq> SEARCH_MATCH_FAILURE then result
            else match_loop n pathname pattern)
         else match_loop n pathname pattern)
      else if c = CHR ''['' then SEARCH_MATCH_FAILURE
      else if c = CHR ''|'' \<and> pathname = [] then SEARCH_MATCH_SUCCESS
      else if (c = CHR ''|'' \<or> c = CHR ''/'') \<and> pathname = [] then SEARCH_MATCH_PARTIAL
      else (case pathname of
              [] \<Rightarrow> SEARCH_MATCH_FAILURE
            | p # ps \<Rightarrow> if p = c then match_loop n ps pattern else SEARCH_MATCH_FAILURE))"
| "match_star n pathname pattern =
     (let result = uu_match_pathname (n + 1) pathname pattern in
      if result \<noteq> SEARCH_MATCH_FAILURE then result
      else (case pathname of
              [] \<Rightarrow> SEARCH_MATCH_FAILURE
            | p # ps \<Rightarrow> if p = CHR ''/'' then SEARCH_MATCH_FAILURE
                       else match_star n ps pattern))"
  by pat_completeness auto
termination
  by (relation "measure (\<lambda>x. case x of
        Inl (n, p, pat) \<Rightarrow> 3 * (length pat + length p) + 1
      | Inr (Inl (n, p, pat)) \<Rightarrow> 3 * (length pat + length p)
      | Inr (Inr (n, p, pat)) \<Rightarrow> 3 * (length pat + length p) + 2)") auto

declare uu_match_pathname.simps [simp del] match_star.simps [simp del]

subsection \<open>The path-pattern matcher \<open>match_pathname\<close>\<close>

text \<open>
  \<open>match_alts\<close> is the inner loop of \<open>match_pathname\<close> over the alternatives of the pattern
  (\<open>patt = strchrskip(patt+1, '|')\<close>), \<open>match_paths\<close> the outer loop over the suffixes of the
  path (\<open>path = strchr(path+1, '/')\<close>). The source forms \<open>path+1\<close> and \<open>patt+1\<close> without
  testing for the terminator; where it would then read past the end of the string the
  model returns \<open>None\<close>. \<open>Some SEARCH_MATCH_FAILURE\<close> from \<open>match_alts\<close> means that the
  inner loop ran to its end (every alternative failed).
\<close>

function match_alts :: "string \<Rightarrow> string \<Rightarrow> search_matched option" where
  "match_alts path patt =
     (if patt \<noteq> [] \<and> hd patt \<noteq> CHR ''/'' \<and> path = [] then None
      else if patt = [] \<and> path = [] then None
      else
        (let status = (if patt \<noteq> [] \<and> hd patt = CHR ''/''
                       then uu_match_pathname 0 path patt
                       else uu_match_pathname 0 (tl path) patt) in
         if status \<noteq> SEARCH_MATCH_FAILURE then Some status
         else if patt = [] then None
         else (case strchrskip (tl patt) (CHR ''|'') of
                 None \<Rightarrow> Some SEARCH_MATCH_FAILURE
               | Some patt' \<Rightarrow> match_alts path patt')))"
  by pat_completeness auto
termination
proof -
  have len: "strchr s c = Some t \<Longrightarrow> length t \<le> length s" for s c t
    by (induction s) (auto split: if_splits)
  have len': "strchr (tl s) c = Some t \<Longrightarrow> s \<noteq> [] \<Longrightarrow> length t < length s" for s c t
    using len [of "tl s" c t] by (cases s) auto
  show ?thesis
    by (relation "measure (\<lambda>(path, patt). length patt)")
       (auto simp: strchrskip_def split: option.splits dest!: len')
qed

function match_paths :: "string \<Rightarrow> string \<Rightarrow> search_matched option" where
  "match_paths path pattern =
     (case match_alts path pattern of
        None \<Rightarrow> None
      | Some status \<Rightarrow>
          if status \<noteq> SEARCH_MATCH_FAILURE then Some status
          else if path = [] then None
          else (case strchr (tl path) (CHR ''/'') of
                  None \<Rightarrow> Some status
                | Some path' \<Rightarrow> match_paths path' pattern))"
  by pat_completeness auto
termination
proof -
  have len: "strchr s c = Some t \<Longrightarrow> length t \<le> length s" for s c t
    by (induction s) (auto split: if_splits)
  have len': "strchr (tl s) c = Some t \<Longrightarrow> s \<noteq> [] \<Longrightarrow> length t < length s" for s c t
    using len [of "tl s" c t] by (cases s) auto
  show ?thesis
    by (relation "measure (\<lambda>(path, pattern). length path)")
       (auto dest!: len')
qed

declare match_alts.simps [simp del] match_paths.simps [simp del]

definition match_pathname :: "string \<Rightarrow> string \<Rightarrow> search_matched option" where
  "match_pathname pathname pattern = match_paths pathname pattern"

text \<open>\<open>isrecursive\<close>: some alternative of the pattern does not start with a slash. It
  walks the alternatives as \<open>match_pathname\<close> does, but tests \<open>*pattern\<close> before it
  advances, so it never reads past the terminator.\<close>

function isrecursive :: "string \<Rightarrow> bool" where
  "isrecursive pattern =
     (if pattern = [] \<or> hd pattern \<noteq> CHR ''/'' then True
      else (case strchrskip (tl pattern) (CHR ''|'') of
              None \<Rightarrow> False
            | Some pattern' \<Rightarrow> isrecursive pattern'))"
  by pat_completeness auto
termination
proof -
  have len: "strchr s c = Some t \<Longrightarrow> length t \<le> length s" for s c t
    by (induction s) (auto split: if_splits)
  have len': "strchr (tl s) c = Some t \<Longrightarrow> s \<noteq> [] \<Longrightarrow> length t < length s" for s c t
    using len [of "tl s" c t] by (cases s) auto
  show ?thesis
    by (relation "measure length")
       (auto simp: strchrskip_def split: option.splits dest!: len')
qed

declare isrecursive.simps [simp del]

subsection \<open>Constants\<close>

text \<open>
  \<open>TREE_DEPTH\<close>, \<open>SEARCH_BUF\<close> and the flag bits are defined in the source. \<open>PATH_MAX\<close>,
  \<open>DT_DIR\<close> and the error numbers come from kernel headers that are not part of the
  repository's sources; they carry their Linux values.
\<close>

definition TREE_DEPTH :: nat where "TREE_DEPTH = 16"
definition PATH_MAX :: nat where "PATH_MAX = 4096"
definition SEARCH_BUF :: nat where "SEARCH_BUF = PATH_MAX * 2 ^ 4"

definition SEARCH_STOPATFIRST :: int where "SEARCH_STOPATFIRST = 1"
definition SEARCH_METADATA :: int where "SEARCH_METADATA = 2"
definition SEARCH_INCLUDEROOT :: int where "SEARCH_INCLUDEROOT = 4"

definition DT_DIR :: nat where "DT_DIR = 4"

definition EPERM :: int where "EPERM = 1"
definition ENOENT :: int where "ENOENT = 2"
definition ENOMEM :: int where "ENOMEM = 12"
definition EACCES :: int where "EACCES = 13"
definition EFAULT :: int where "EFAULT = 14"
definition ENODEV :: int where "ENODEV = 19"
definition EINVAL :: int where "EINVAL = 22"
definition ERANGE :: int where "ERANGE = 34"

lemmas errno_defs =
  EPERM_def ENOENT_def ENOMEM_def EACCES_def EFAULT_def ENODEV_def EINVAL_def ERANGE_def

lemmas flag_defs = SEARCH_STOPATFIRST_def SEARCH_METADATA_def SEARCH_INCLUDEROOT_def

definition NUL :: char where "NUL = CHR 0x00"

subsection \<open>The kernel services the search calls\<close>

text \<open>
  The fields of \<open>struct kstat\<close> that \<open>copy_search_result\<close> prints, as mathematical
  integers; the casts of the source are applied when they are printed.
\<close>

record kstat =
  st_dev :: int
  st_ino :: int
  st_mode :: int
  st_nlink :: int
  st_uid :: int
  st_gid :: int
  st_rdev :: int
  st_size :: int
  st_atime :: int
  st_mtime :: int
  st_ctime :: int
  st_blksize :: int
  st_blocks :: int

definition zero_kstat :: kstat where
  "zero_kstat = \<lparr> st_dev = 0, st_ino = 0, st_mode = 0, st_nlink = 0, st_uid = 0, st_gid = 0,
     st_rdev = 0, st_size = 0, st_atime = 0, st_mtime = 0, st_ctime = 0, st_blksize = 0,
     st_blocks = 0 \<rparr>"

text \<open>A \<open>struct path\<close> (mount and dentry) is an opaque identifier.\<close>

type_synonym kpath = nat

text \<open>
  User memory is addressed relative to the argument \<open>buf\<close> of the system call: the byte
  at \<open>buf + i\<close> is \<open>m i\<close>.
\<close>

type_synonym umem = "int \<Rightarrow> char"

text \<open>
  An open directory (\<open>struct file *\<close>, here \<open>kfile\<close>) carries what the kernel answers for it:
  \<^item> \<open>f_path\<close>: its \<open>f_path\<close>;
  \<^item> \<open>f_abspath\<close>: the result of \<open>d_absolute_path\<close> on it, an error number (\<open>PTR_ERR\<close>) or
    the canonical path;
  \<^item> \<open>f_search\<close>: the hook \<open>f_op->search\<close> when the filesystem has one; it receives the
    mount's path, the relative path, the pattern, the flags, user memory, the output
    position and the remaining length, and returns its code and user memory as it
    leaves it;
  \<^item> \<open>f_mount\<close>: \<open>dentry_path\<close> of the mount point;
  \<^item> \<open>f_readdir\<close>: for each successive call of \<open>vfs_readdir\<close>, the status it returns and
    the entries (type and name) it offers to the callback; once the list is used up
    the calls return 0 and offer nothing. A directory listing is finite.
\<close>

record kfile =
  f_path :: kpath
  f_abspath :: "int + string"
  f_search :: "(string \<Rightarrow> string \<Rightarrow> string \<Rightarrow> int \<Rightarrow> umem \<Rightarrow> int \<Rightarrow> nat \<Rightarrow> int \<times> umem) option"
  f_mount :: string
  f_readdir :: "(int \<times> (nat \<times> string) list) list"

text \<open>
  The kernel as the system call sees it. During one call the answers depend on the
  arguments only.
  \<^item> \<open>access_ok\<close>: the range check of \<open>buf\<close> for a length;
  \<^item> \<open>kmalloc_ds\<close>, \<open>kmalloc_dirs\<close>: whether the two allocations succeed;
  \<^item> \<open>getname\<close>: the copy of a user string, or an error number;
  \<^item> \<open>filp_open\<close>: an error number (\<open>PTR_ERR\<close>) or the open directory;
  \<^item> \<open>kern_path\<close>, \<open>vfs_path_lookup\<close>, \<open>vfs_getattr\<close>: the status and the output argument;
  \<^item> \<open>huge_encode_dev\<close>: the device number encoding;
  \<^item> \<open>user_writable\<close>: the bytes of user memory a copy can reach without faulting.
\<close>

record vfs =
  access_ok :: "nat \<Rightarrow> bool"
  kmalloc_ds :: bool
  kmalloc_dirs :: bool
  getname :: "string \<Rightarrow> int + string"
  filp_open :: "string \<Rightarrow> int + kfile"
  kern_path :: "string \<Rightarrow> int \<times> kpath"
  vfs_path_lookup :: "kpath \<Rightarrow> string \<Rightarrow> int \<times> kpath"
  vfs_getattr :: "kpath \<Rightarrow> int \<times> kstat"
  huge_encode_dev :: "int \<Rightarrow> int"
  user_writable :: "int \<Rightarrow> bool"

text \<open>\<open>copy_to_user(to, from, n)\<close>: copies up to the first byte it cannot write and
  returns the number of bytes it did not copy.\<close>

fun copy_to_user :: "(int \<Rightarrow> bool) \<Rightarrow> umem \<Rightarrow> int \<Rightarrow> char list \<Rightarrow> nat \<times> umem" where
  "copy_to_user w m to [] = (0, m)"
| "copy_to_user w m to (b # bs) =
     (if w to then copy_to_user w (m(to := b)) (to + 1) bs else (Suc (length bs), m))"

subsection \<open>The state of one search\<close>

text \<open>
  What the walker calls, in order. The trace is not a field of the source's
  \<open>struct dir_search\<close>; it is kept so that properties of the calls can be stated.
  \<open>Walk n p\<close>: \<open>search_directory\<close> entered at depth \<open>n\<close> with path \<open>p\<close>;
  \<open>Open n p\<close>: \<open>filp_open\<close> of \<open>p\<close> succeeded into \<open>dirs[n].fp\<close>;
  \<open>Open_failed n p e\<close>: it failed with \<open>e\<close>;
  \<open>Close n\<close>: \<open>filp_close(dirs[n].fp)\<close>;
  \<open>Copy_result r c\<close>: \<open>copy_search_result\<close> built the record \<open>r\<close> and returned \<open>c\<close>.
\<close>

datatype event =
    Walk nat string
  | Open nat string
  | Open_failed nat string int
  | Close nat
  | Copy_result string int

text \<open>
  \<open>struct dir_search\<close>. \<open>ds_next\<close> is \<open>ds->next - ds->buf\<close>; \<open>ds_len\<close> is a \<open>size_t\<close> of 64
  bits; \<open>ds_status\<close> and \<open>ds_results\<close> are C \<open>int\<close>s, kept as integers (the match count
  cannot reach \<open>2^31\<close> without a native provider). The per-depth frames \<open>dirs[n]\<close> are
  the local values of the walker at depth \<open>n\<close>.
\<close>

record dir_search =
  ds_status :: int
  ds_results :: int
  ds_pattern :: string
  ds_flags :: int
  ds_umem :: umem
  ds_next :: int
  ds_len :: nat
  ds_isrecursive :: bool
  ds_base :: nat
  ds_path :: string
  ds_trace :: "event list"

definition log_event :: "event \<Rightarrow> dir_search \<Rightarrow> dir_search" where
  "log_event e ds = ds\<lparr>ds_trace := ds_trace ds @ [e]\<rparr>"

text \<open>The test \<open>ds->flags & FLAG\<close>.\<close>

definition has_flag :: "dir_search \<Rightarrow> int \<Rightarrow> bool" where
  "has_flag ds f = (ds_flags ds AND f \<noteq> 0)"

subsection \<open>The result encoder \<open>copy_search_result\<close>\<close>

text \<open>\<open>%zd\<close> of a value cast to \<open>ssize_t\<close> (64 bits) and \<open>%d\<close> of a value cast to \<open>int\<close>.\<close>

definition as_ssize_t :: "int \<Rightarrow> int" where
  "as_ssize_t x = (x + 2 ^ 63) mod 2 ^ 64 - 2 ^ 63"

definition as_int :: "int \<Rightarrow> int" where
  "as_int x = (x + 2 ^ 31) mod 2 ^ 32 - 2 ^ 31"

fun dec_nat :: "nat \<Rightarrow> string" where
  "dec_nat n =
     (if n < 10 then [''0123456789'' ! n]
      else dec_nat (n div 10) @ [''0123456789'' ! (n mod 10)])"

declare dec_nat.simps [simp del]

definition dec_int :: "int \<Rightarrow> string" where
  "dec_int i = (if i < 0 then CHR ''-'' # dec_nat (nat (- i)) else dec_nat (nat i))"

text \<open>The string \<open>sprintf\<close> leaves in \<open>ds->result\<close>.\<close>

definition result_string :: "vfs \<Rightarrow> dir_search \<Rightarrow> string \<Rightarrow> kstat \<Rightarrow> string" where
  "result_string v ds p stat =
     (if has_flag ds SEARCH_METADATA then
        ''0|'' @ p @ ''|''
        @ dec_int (as_ssize_t (huge_encode_dev v (st_dev stat))) @ '',''
        @ dec_int (as_ssize_t (st_ino stat)) @ '',''
        @ dec_int (as_int (st_mode stat)) @ '',''
        @ dec_int (as_ssize_t (st_nlink stat)) @ '',''
        @ dec_int (as_int (st_uid stat)) @ '',''
        @ dec_int (as_int (st_gid stat)) @ '',''
        @ dec_int (as_ssize_t (huge_encode_dev v (st_rdev stat))) @ '',''
        @ dec_int (as_ssize_t (st_size stat)) @ '',''
        @ dec_int (as_ssize_t (st_atime stat)) @ '',''
        @ dec_int (as_ssize_t (st_mtime stat)) @ '',''
        @ dec_int (as_ssize_t (st_ctime stat)) @ '',''
        @ dec_int (as_ssize_t (st_blksize stat)) @ '',''
        @ dec_int (as_ssize_t (st_blocks stat)) @ ''|''
      else ''0|'' @ p @ ''||'')"

text \<open>
  \<open>copy_search_result(ds, &ds->next, &ds->len, path, stat)\<close>: the return value and the
  state. On success the output position advances by the length of the record only, not
  by the two terminators copied after it.
\<close>

definition copy_search_result ::
  "vfs \<Rightarrow> dir_search \<Rightarrow> string \<Rightarrow> kstat \<Rightarrow> int \<times> dir_search" where
  "copy_search_result v ds p stat =
     (let result = result_string v ds p stat;
          result_len = length result in
      if result_len + 2 \<le> ds_len ds then
        (case copy_to_user (user_writable v) (ds_umem ds) (ds_next ds) (result @ [NUL, NUL]) of
           (left, m) \<Rightarrow>
             if left \<noteq> 0 then
               (- EFAULT, log_event (Copy_result result (- EFAULT)) (ds\<lparr>ds_umem := m\<rparr>))
             else
               (0, log_event (Copy_result result 0)
                     (ds\<lparr>ds_umem := m,
                         ds_next := ds_next ds + int result_len,
                         ds_len := ds_len ds - result_len\<rparr>)))
      else (- ERANGE, log_event (Copy_result result (- ERANGE)) ds))"

subsection \<open>The tree walker \<open>search_directory\<close>\<close>

text \<open>\<open>search_filldir\<close>, the callback of \<open>vfs_readdir\<close>, on the scratch buffer of a frame:
  the bytes used so far (\<open>ds->next - ds->entries\<close>) and the entries stored, each a type
  character and a name.\<close>

type_synonym entries = "nat \<times> (char \<times> string) list"

definition search_filldir :: "entries \<Rightarrow> string \<Rightarrow> nat \<Rightarrow> int \<times> entries" where
  "search_filldir ents name d_type =
     (if int SEARCH_BUF - int (fst ents) < int (length name) + 3 then (- EINVAL, ents)
      else (0, (fst ents + 1 + (length name + 1),
                snd ents @ [(if d_type = DT_DIR then CHR ''d'' else CHR ''o'', name)])))"

text \<open>\<open>vfs_readdir\<close> hands the entries it offers to the callback until the callback
  returns non-zero.\<close>

fun vfs_readdir :: "(nat \<times> string) list \<Rightarrow> entries \<Rightarrow> entries" where
  "vfs_readdir [] ents = ents"
| "vfs_readdir ((d_type, name) # rest) ents =
     (case search_filldir ents name d_type of
        (r, ents') \<Rightarrow> if r \<noteq> 0 then ents' else vfs_readdir rest ents')"

text \<open>How a loop of the walker is left: \<open>Exit\<close> is \<open>goto exit\<close>.\<close>

datatype flow = Continue | Exit

text \<open>
  The block under \<open>if (ds->dirs[n].how == SEARCH_MATCH_SUCCESS)\<close>. Without
  \<open>SEARCH_METADATA\<close> the stat buffer is not read by \<open>copy_search_result\<close>; the model
  passes \<open>zero_kstat\<close>.
\<close>

definition report_match :: "vfs \<Rightarrow> kfile \<Rightarrow> string \<Rightarrow> dir_search \<Rightarrow> flow \<times> dir_search" where
  "report_match v fp entry ds =
     (case vfs_path_lookup v (f_path fp) entry of
        (st1, p) \<Rightarrow>
          let ds1 = ds\<lparr>ds_status := st1\<rparr> in
          if st1 \<noteq> 0 then (Exit, ds1)
          else
            (case (if has_flag ds1 SEARCH_METADATA then vfs_getattr v p else (st1, zero_kstat)) of
               (st2, stat) \<Rightarrow>
                 let ds2 = ds1\<lparr>ds_status := st2\<rparr> in
                 if st2 \<noteq> 0 then (Exit, ds2)
                 else
                   (case copy_search_result v ds2
                           (if has_flag ds2 SEARCH_INCLUDEROOT then ds_path ds2 else entry) stat of
                      (st3, ds3) \<Rightarrow>
                        let ds4 = ds3\<lparr>ds_status := st3\<rparr> in
                        if st3 \<noteq> 0 then (Exit, ds4)
                        else
                          let ds5 = ds4\<lparr>ds_results := ds_results ds4 + 1\<rparr> in
                          if has_flag ds5 SEARCH_STOPATFIRST then (Exit, ds5)
                          else (Continue, ds5))))"

text \<open>
  The second block of the loop body, from the test \<open>type == 'd' && ...\<close> to the
  truncation \<open>*ds->dirs[n].dir = '\0'\<close>. \<open>descend\<close> stands for the call
  \<open>search_directory(ds, n+1)\<close>; \<open>dir\<close> is the offset \<open>ds->dirs[n].dir - ds->path\<close>.
\<close>

definition descend_entry ::
  "(dir_search \<Rightarrow> (int \<times> dir_search) option) \<Rightarrow> nat \<Rightarrow> char \<Rightarrow> string \<Rightarrow> search_matched
     \<Rightarrow> dir_search \<Rightarrow> (flow \<times> dir_search) option" where
  "descend_entry descend dir type entry how ds =
     (if type = CHR ''d'' \<and> entry \<noteq> ''.'' \<and> entry \<noteq> ''..''
         \<and> (how = SEARCH_MATCH_PARTIAL \<or> ds_isrecursive ds)
      then
        (case descend ds of
           None \<Rightarrow> None
         | Some (st, ds3) \<Rightarrow>
             let ds4 = ds3\<lparr>ds_status := st\<rparr> in
             if st \<noteq> 0 then Some (Exit, ds4)
             else if ds_results ds4 > 0 \<and> has_flag ds4 SEARCH_STOPATFIRST
             then Some (Exit, ds4)
             else Some (Continue, ds4\<lparr>ds_path := take dir (ds_path ds4)\<rparr>))
      else Some (Continue, ds\<lparr>ds_path := take dir (ds_path ds)\<rparr>))"

text \<open>
  The body of the \<open>for\<close> loop over the entries of one listing, for the entry with
  type character \<open>type\<close> and name \<open>entry\<close>. \<open>None\<close>: the source would write past the end
  of \<open>ds->path\<close> (\<open>PATH_MAX+1\<close> bytes), form \<open>ds->path + ds->base\<close> past the terminator,
  or read past a terminator in \<open>match_pathname\<close>.
\<close>

definition search_entry ::
  "vfs \<Rightarrow> (dir_search \<Rightarrow> (int \<times> dir_search) option) \<Rightarrow> kfile \<Rightarrow> nat \<Rightarrow> char \<times> string
     \<Rightarrow> dir_search \<Rightarrow> (flow \<times> dir_search) option" where
  "search_entry v descend fp dir e ds =
     (case e of
        (type, entry) \<Rightarrow>
          if length (ds_path ds) + 1 + length entry > PATH_MAX then None
          else
            let ds1 = ds\<lparr>ds_path := ds_path ds @ ''/'' @ entry\<rparr> in
            if ds_base ds1 > length (ds_path ds1) then None
            else
              (case match_pathname (drop (ds_base ds1) (ds_path ds1)) (ds_pattern ds1) of
                 None \<Rightarrow> None
               | Some how \<Rightarrow>
                   (case (if how = SEARCH_MATCH_SUCCESS then report_match v fp entry ds1
                          else (Continue, ds1)) of
                      (Exit, ds2) \<Rightarrow> Some (Exit, ds2)
                    | (Continue, ds2) \<Rightarrow> descend_entry descend dir type entry how ds2)))"

text \<open>The \<open>for\<close> loop over the entries stored by one \<open>vfs_readdir\<close>.\<close>

fun entry_loop ::
  "vfs \<Rightarrow> (dir_search \<Rightarrow> (int \<times> dir_search) option) \<Rightarrow> kfile \<Rightarrow> nat \<Rightarrow> (char \<times> string) list
     \<Rightarrow> dir_search \<Rightarrow> (flow \<times> dir_search) option" where
  "entry_loop v descend fp dir [] ds = Some (Continue, ds)"
| "entry_loop v descend fp dir (e # es) ds =
     (case search_entry v descend fp dir e ds of
        None \<Rightarrow> None
      | Some (Exit, ds') \<Rightarrow> Some (Exit, ds')
      | Some (Continue, ds') \<Rightarrow> entry_loop v descend fp dir es ds')"

text \<open>The \<open>do ... while (next > entries)\<close> loop; its result is the state at the label
  \<open>exit\<close>. The second argument lists the answers of the calls of \<open>vfs_readdir\<close> still to
  come.\<close>

fun readdir_loop ::
  "vfs \<Rightarrow> (dir_search \<Rightarrow> (int \<times> dir_search) option) \<Rightarrow> kfile
     \<Rightarrow> (int \<times> (nat \<times> string) list) list \<Rightarrow> dir_search \<Rightarrow> dir_search option" where
  "readdir_loop v descend fp [] ds = Some (ds\<lparr>ds_status := 0\<rparr>)"
| "readdir_loop v descend fp ((st, offered) # rest) ds =
     (let ents = snd (vfs_readdir offered (0, []));
          ds1 = ds\<lparr>ds_status := st\<rparr> in
      if st \<noteq> 0 then Some ds1
      else if ents \<noteq> [] then
        (case entry_loop v descend fp (length (ds_path ds1)) ents ds1 of
           None \<Rightarrow> None
         | Some (Exit, ds2) \<Rightarrow> Some ds2
         | Some (Continue, ds2) \<Rightarrow> readdir_loop v descend fp rest ds2)
      else Some ds1)"

text \<open>\<open>abspath\<close>: the status and the new contents of \<open>ds->path\<close>.\<close>

definition abspath :: "kfile \<Rightarrow> string \<Rightarrow> int \<times> string" where
  "abspath fp p = (case f_abspath fp of Inl e \<Rightarrow> (e, p) | Inr s \<Rightarrow> (0, s))"

text \<open>
  The branch that pushes the search to the filesystem driver. The result says whether
  the branch left by \<open>goto out\<close> (\<open>True\<close>) or fell through to the label \<open>exit\<close>. \<open>None\<close>:
  \<open>rel_path\<close> would point past the terminator of \<open>ds->path\<close>.
\<close>

definition native_search :: "kfile \<Rightarrow> dir_search \<Rightarrow> (bool \<times> dir_search) option" where
  "native_search fp ds =
     (case f_search fp of
        None \<Rightarrow> None
      | Some search \<Rightarrow>
          if length (f_mount fp) > length (ds_path ds) then None
          else
            (case search (f_mount fp) (drop (length (f_mount fp)) (ds_path ds)) (ds_pattern ds)
                    (ds_flags ds) (ds_umem ds) (ds_next ds) (ds_len ds) of
               (driver_code, m) \<Rightarrow>
                 let ds1 = ds\<lparr>ds_umem := m,
                              ds_results := ds_results ds + driver_code,
                              ds_next := ds_next ds + driver_code\<rparr> in
                 if driver_code < 0 then Some (True, ds1\<lparr>ds_status := driver_code\<rparr>)
                 else Some (False, ds1\<lparr>ds_len :=
                        nat ((int (ds_len ds1) - driver_code) mod 2 ^ 64)\<rparr>)))"

text \<open>
  The first part of \<open>search_directory\<close>, up to the test for a native search: \<open>Inl\<close> is
  a return (the depth limit, a failed \<open>filp_open\<close>, or a failed \<open>abspath\<close>, which goes
  through \<open>filp_close\<close>), \<open>Inr\<close> is the open directory and the state with the canonical
  path and the base set.
\<close>

definition enter_directory ::
  "vfs \<Rightarrow> dir_search \<Rightarrow> nat \<Rightarrow> (int \<times> dir_search) + (kfile \<times> dir_search)" where
  "enter_directory v ds n =
     (let dsw = log_event (Walk n (ds_path ds)) ds in
      if n \<ge> TREE_DEPTH then Inl (0, dsw)
      else
        let ds0 = dsw\<lparr>ds_status := 0\<rparr> in
        (case filp_open v (ds_path ds0) of
           Inl err \<Rightarrow>
             let ds1 = log_event (Open_failed n (ds_path ds0) err) (ds0\<lparr>ds_status := err\<rparr>) in
             if err = - ENOENT \<or> err = - EPERM \<or> err = - EACCES \<or> err = - ENODEV
             then Inl (0, ds1)
             else Inl (ds_status ds1, ds1)
         | Inr fp \<Rightarrow>
             let ds1 = log_event (Open n (ds_path ds0)) ds0 in
             (case abspath fp (ds_path ds1) of
                (st, p) \<Rightarrow>
                  let ds2 = ds1\<lparr>ds_status := st, ds_path := p\<rparr> in
                  if st \<noteq> 0 then Inl (ds_status ds2, log_event (Close n) ds2)
                  else if ds_base ds2 = 0
                  then Inr (fp, ds2\<lparr>ds_base := length (ds_path ds2)\<rparr>)
                  else Inr (fp, ds2))))"

text \<open>
  \<open>search_directory(ds, n)\<close>: the return value and the state. After the native search
  the label \<open>out\<close> is reached without \<open>filp_close\<close> when the driver's code is negative;
  every other way from an open directory goes through the label \<open>exit\<close>.
\<close>

function search_directory :: "vfs \<Rightarrow> dir_search \<Rightarrow> nat \<Rightarrow> (int \<times> dir_search) option" where
  "search_directory v ds n =
     (case enter_directory v ds n of
        Inl r \<Rightarrow> Some r
      | Inr (fp, ds3) \<Rightarrow>
          if f_search fp \<noteq> None then
            (case native_search fp ds3 of
               None \<Rightarrow> None
             | Some (True, ds4) \<Rightarrow> Some (ds_status ds4, ds4)
             | Some (False, ds4) \<Rightarrow> Some (ds_status ds4, log_event (Close n) ds4))
          else
            (case readdir_loop v (\<lambda>ds'. search_directory v ds' (n + 1)) fp (f_readdir fp) ds3 of
               None \<Rightarrow> None
             | Some ds4 \<Rightarrow> Some (ds_status ds4, log_event (Close n) ds4)))"
  by pat_completeness auto
termination
proof -
  have "n < TREE_DEPTH" if "enter_directory v ds n = Inr x" for v ds n x
    using that
    by (auto simp: enter_directory_def Let_def split: if_splits sum.splits prod.splits)
  then have "TREE_DEPTH - Suc n < TREE_DEPTH - n"
    if "enter_directory v ds n = Inr x" for v ds n x
    using that by (simp add: diff_less_mono2)
  then show ?thesis
    by (relation "measure (\<lambda>(v, ds, n). TREE_DEPTH - n)") auto
qed

declare search_directory.simps [simp del]

subsection \<open>The system call\<close>

text \<open>The tokens that the calls \<open>strsep(&n, "|")\<close> return, in order, until \<open>NULL\<close>.\<close>

fun strsep_all :: "string \<Rightarrow> string list" where
  "strsep_all [] = [[]]"
| "strsep_all (x # xs) =
     (if x = CHR ''|'' then [] # strsep_all xs
      else (x # hd (strsep_all xs)) # tl (strsep_all xs))"

text \<open>How the body of the loop over the roots is left: by reaching its end or
  \<open>continue\<close>, by \<open>break\<close>, or by \<open>goto exit\<close> with the local \<open>status\<close>.\<close>

datatype root_flow = Next_root | Stop_roots | Abort int

text \<open>
  The \<open>else\<close> branch of the loop body: the direct lookup of a pattern without
  wildcards under the root in \<open>ds->path\<close>. \<open>None\<close>: the source would write past the end
  of \<open>ds->path\<close>.
\<close>

definition search_literal :: "vfs \<Rightarrow> dir_search \<Rightarrow> (root_flow \<times> dir_search) option" where
  "search_literal v ds =
     (case kern_path v (ds_path ds) of
        (st0, p0) \<Rightarrow>
          if st0 = - ENOENT then Some (Next_root, ds)
          else if st0 \<noteq> 0 then Some (Abort st0, ds)
          else
            let ds1 = ds\<lparr>ds_base := length (ds_path ds)\<rparr> in
            if length (ds_path ds1) + 1 + length (ds_pattern ds1) > PATH_MAX then None
            else
              let ds2 = ds1\<lparr>ds_path := ds_path ds1 @ ''/'' @ ds_pattern ds1\<rparr> in
              (case vfs_path_lookup v p0 (ds_pattern ds2) of
                 (st1, p1) \<Rightarrow>
                   if st1 = - ENOENT then Some (Next_root, ds2)
                   else if st1 \<noteq> 0 then Some (Abort st1, ds2)
                   else
                     (case (if has_flag ds2 SEARCH_METADATA then vfs_getattr v p1
                            else (st1, zero_kstat)) of
                        (st2, stat) \<Rightarrow>
                          if st2 \<noteq> 0 then Some (Abort st2, ds2)
                          else
                            (case copy_search_result v ds2
                                    (if has_flag ds2 SEARCH_INCLUDEROOT then ds_path ds2
                                     else drop (ds_base ds2) (ds_path ds2)) stat of
                               (st3, ds3) \<Rightarrow>
                                 if st3 \<noteq> 0 then Some (Abort st3, ds3)
                                 else
                                   let ds4 = ds3\<lparr>ds_results := ds_results ds3 + 1\<rparr> in
                                   if has_flag ds4 SEARCH_STOPATFIRST then Some (Stop_roots, ds4)
                                   else Some (Next_root, ds4)))))"

text \<open>How the loop over the roots ends: it ran out or was left by \<open>break\<close>
  (\<open>Finished\<close>), or it jumped to \<open>exit\<close> with a status.\<close>

datatype loop_end = Finished | Failed int

fun roots_loop ::
  "vfs \<Rightarrow> bool \<Rightarrow> string list \<Rightarrow> dir_search \<Rightarrow> (loop_end \<times> dir_search) option" where
  "roots_loop v ispat [] ds = Some (Finished, ds)"
| "roots_loop v ispat (c # cs) ds =
     (if length c > PATH_MAX then None
      else
        let ds1 = ds\<lparr>ds_path := c\<rparr> in
        if ispat then
          (case search_directory v (ds1\<lparr>ds_base := 0\<rparr>) 0 of
             None \<Rightarrow> None
           | Some (status, ds2) \<Rightarrow>
               if status \<noteq> 0 then Some (Failed status, ds2)
               else if ds_results ds2 > 0 \<and> has_flag ds2 SEARCH_STOPATFIRST
               then Some (Finished, ds2)
               else roots_loop v ispat cs ds2)
        else
          (case search_literal v ds1 of
             None \<Rightarrow> None
           | Some (Abort status, ds2) \<Rightarrow> Some (Failed status, ds2)
           | Some (Stop_roots, ds2) \<Rightarrow> Some (Finished, ds2)
           | Some (Next_root, ds2) \<Rightarrow> roots_loop v ispat cs ds2))"

text \<open>
  The end of the system call, after the loop over the roots: when something was written
  (\<open>ds->buf != ds->next\<close>) two terminators are copied over the last separator, then
  \<open>status = ds->results\<close>. The value is tagged as for \<open>sys_search\<close> below.
\<close>

definition finish_search :: "vfs \<Rightarrow> dir_search \<Rightarrow> (int + int) \<times> dir_search" where
  "finish_search v ds =
     (if ds_next ds \<noteq> 0 then
        (case copy_to_user (user_writable v) (ds_umem ds) (ds_next ds - 1) [NUL, NUL] of
           (left, m) \<Rightarrow>
             if left \<noteq> 0 then (Inl (int left), ds\<lparr>ds_umem := m\<rparr>)
             else (Inr (ds_results ds), ds\<lparr>ds_umem := m\<rparr>))
      else (Inr (ds_results ds), ds))"

text \<open>The state after the assignments at the start of the system call, for the
  pattern that \<open>getname\<close> returned.\<close>

definition init_search :: "string \<Rightarrow> int \<Rightarrow> umem \<Rightarrow> nat \<Rightarrow> dir_search" where
  "init_search kpattern flags buf len =
     \<lparr> ds_status = 0, ds_results = 0, ds_pattern = kpattern, ds_flags = flags,
       ds_umem = buf, ds_next = 0, ds_len = len, ds_isrecursive = isrecursive kpattern,
       ds_base = 0, ds_path = [], ds_trace = [] \<rparr>"

text \<open>
  \<open>SYSCALL_DEFINE5(search, paths, pattern, flags, buf, len)\<close>, with the contents of user
  memory at the call. The value returned is tagged with the way the call ends: \<open>Inl\<close> is
  the local \<open>status\<close> at a jump to one of the exit labels, \<open>Inr\<close> is \<open>ds->results\<close>
  assigned to \<open>status\<close> at the end of the body. The state is returned with it for the
  contents of user memory and the trace (before \<open>getname\<close> has returned the pattern,
  the state with an empty pattern). \<open>None\<close> as in the walker.
\<close>

definition sys_search ::
  "vfs \<Rightarrow> string \<Rightarrow> string \<Rightarrow> int \<Rightarrow> umem \<Rightarrow> nat \<Rightarrow> ((int + int) \<times> dir_search) option" where
  "sys_search v paths pattern flags buf len =
     (if \<not> access_ok v len then Some (Inl (- EFAULT), init_search [] flags buf len)
      else if \<not> kmalloc_ds v then Some (Inl (- ENOMEM), init_search [] flags buf len)
      else
        (case getname v paths of
           Inl e \<Rightarrow> Some (Inl e, init_search [] flags buf len)
         | Inr kpaths \<Rightarrow>
             (case getname v pattern of
                Inl e \<Rightarrow> Some (Inl e, init_search [] flags buf len)
              | Inr kpattern \<Rightarrow>
                  let ds1 = init_search kpattern flags buf len;
                      ispat = ispattern kpattern in
                  if ispat \<and> \<not> kmalloc_dirs v then Some (Inl 0, ds1)
                  else
                    let ds2 = (if ispat then ds1
                               else ds1\<lparr>ds_pattern :=
                                      dropWhile (\<lambda>c. c = CHR ''/'') kpattern\<rparr>) in
                    (case roots_loop v ispat (strsep_all kpaths) ds2 of
                       None \<Rightarrow> None
                     | Some (Failed status, ds3) \<Rightarrow> Some (Inl status, ds3)
                     | Some (Finished, ds3) \<Rightarrow> Some (finish_search v ds3)))))"

subsection \<open>The behaviour of \<open>*\<close> as the specification words it\<close>

text \<open>
  The specification describes \<open>*\<close> as a sequence of attempts: the rest of the pattern
  is matched, one recursion deeper, against the path with \<open>k\<close> characters consumed, for
  \<open>k = 0, 1, ...\<close> up to the length of the leading run of characters other than the
  separator; the first outcome other than \<open>Failure\<close> is the result. These two
  definitions follow those words, to be compared with \<open>match_star\<close>.
\<close>

fun first_non_failure :: "search_matched list \<Rightarrow> search_matched" where
  "first_non_failure [] = SEARCH_MATCH_FAILURE"
| "first_non_failure (r # rs) =
     (if r \<noteq> SEARCH_MATCH_FAILURE then r else first_non_failure rs)"

definition star_attempts :: "int \<Rightarrow> string \<Rightarrow> string \<Rightarrow> search_matched list" where
  "star_attempts n pathname pattern =
     map (\<lambda>k. uu_match_pathname (n + 1) (drop k pathname) pattern)
         [0 ..< Suc (length (takeWhile (\<lambda>c. c \<noteq> CHR ''/'') pathname))]"

subsection \<open>Predicates and projections used in the statements\<close>

text \<open>The trace of \<open>cur\<close> is the trace of \<open>ds\<close>, then the entry of \<open>search_directory\<close> at
  depth \<open>n\<close> with the path of \<open>ds\<close>, then more.\<close>

definition extends_trace :: "nat \<Rightarrow> dir_search \<Rightarrow> dir_search \<Rightarrow> bool" where
  "extends_trace n ds cur = (\<exists>more. ds_trace cur = ds_trace ds @ Walk n (ds_path ds) # more)"

text \<open>The value returned by a call, its trace, and the first \<open>k\<close> bytes of the output
  buffer after it.\<close>

definition run_outcome :: "((int + int) \<times> dir_search) option \<Rightarrow> (int + int) option" where
  "run_outcome r = map_option fst r"

definition run_trace :: "((int + int) \<times> dir_search) option \<Rightarrow> event list" where
  "run_trace r = (case r of None \<Rightarrow> [] | Some x \<Rightarrow> ds_trace (snd x))"

definition run_buffer :: "((int + int) \<times> dir_search) option \<Rightarrow> nat \<Rightarrow> string" where
  "run_buffer r k =
     (case r of None \<Rightarrow> [] | Some x \<Rightarrow> map (ds_umem (snd x)) (map int [0 ..< k]))"

text \<open>
  The events that end a search with an error: a failed open whose error is not among
  the four that are skipped, and a record that could not be copied out. \<open>clean\<close>: no
  such event so far; \<open>failed c\<close>: \<open>c\<close> is an error status and every such event carries
  it.
\<close>

fun fatal :: "event \<Rightarrow> int option" where
  "fatal (Open_failed n p e) =
     (if e = - ENOENT \<or> e = - EPERM \<or> e = - EACCES \<or> e = - ENODEV \<or> e = 0 then None
      else Some e)"
| "fatal (Copy_result r c) = (if c = 0 then None else Some c)"
| "fatal (Walk n p) = None"
| "fatal (Open n p) = None"
| "fatal (Close n) = None"

definition clean :: "dir_search \<Rightarrow> bool" where
  "clean ds = (\<forall>e \<in> set (ds_trace ds). fatal e = None)"

definition failed :: "int \<Rightarrow> dir_search \<Rightarrow> bool" where
  "failed c ds = (c \<noteq> 0 \<and> (\<forall>e \<in> set (ds_trace ds). \<forall>c'. fatal e = Some c' \<longrightarrow> c' = c))"

text \<open>The state after a root whose open failed at depth 0: the path, the base, the
  status and the trace are the only fields that change.\<close>

definition skipped_root :: "int \<Rightarrow> string \<Rightarrow> dir_search \<Rightarrow> dir_search" where
  "skipped_root e root ds =
     log_event (Open_failed 0 root e)
       ((log_event (Walk 0 root) (ds\<lparr>ds_path := root, ds_base := 0\<rparr>))\<lparr>ds_status := e\<rparr>)"

text \<open>
  Every native search hook of the filesystem returns at most 1 when it is called with
  \<open>SEARCH_STOPATFIRST\<close> among its flags. What a hook returns for other flags is not
  constrained.
\<close>

definition providers_honour_stop_at_first :: "vfs \<Rightarrow> bool" where
  "providers_honour_stop_at_first v =
     (\<forall>p fp search. filp_open v p = Inr fp \<longrightarrow> f_search fp = Some search \<longrightarrow>
        (\<forall>mount rel pat flags m nx len.
           flags AND SEARCH_STOPATFIRST \<noteq> 0 \<longrightarrow> fst (search mount rel pat flags m nx len) \<le> 1))"

text \<open>The events that emit a record (a result copied with no error), and the events
  that release a directory.\<close>

fun recorded :: "event \<Rightarrow> bool" where
  "recorded (Copy_result r c) = (c = 0)"
| "recorded (Walk n p) = False"
| "recorded (Open n p) = False"
| "recorded (Open_failed n p e) = False"
| "recorded (Close n) = False"

fun is_close :: "event \<Rightarrow> bool" where
  "is_close (Close n) = True"
| "is_close (Walk n p) = False"
| "is_close (Open n p) = False"
| "is_close (Open_failed n p e) = False"
| "is_close (Copy_result r c) = False"

text \<open>
  The walker halts after the first record of the trace: what follows it is only the
  release of the directories that are open. No directory is entered or opened and no
  result is copied any more.
\<close>

fun halts_after_first :: "event list \<Rightarrow> bool" where
  "halts_after_first [] = True"
| "halts_after_first (e # es) =
     (if recorded e then list_all is_close es else halts_after_first es)"

text \<open>
  With \<open>SEARCH_STOPATFIRST\<close>: nothing found so far (\<open>stop_none\<close>: the count is 0 and no
  record was emitted), and, at an exit with status \<open>st\<close>, an error or at most one match,
  the walker having halted after the first record (\<open>stop_some\<close>).
\<close>

definition stop_none :: "dir_search \<Rightarrow> bool" where
  "stop_none ds =
     (has_flag ds SEARCH_STOPATFIRST \<and> ds_results ds = 0 \<and> \<not> list_ex recorded (ds_trace ds))"

definition stop_some :: "int \<Rightarrow> dir_search \<Rightarrow> bool" where
  "stop_some st ds =
     (has_flag ds SEARCH_STOPATFIRST
      \<and> (st \<noteq> 0 \<or> (ds_results ds = 0 \<and> \<not> list_ex recorded (ds_trace ds)) \<or> ds_results ds = 1)
      \<and> halts_after_first (ds_trace ds))"

text \<open>
  The bytes that the successful calls of \<open>copy_search_result\<close> have emitted, in the order of
  the calls: the concatenation of the records of the trace that were copied with no error.
\<close>

fun emitted :: "event list \<Rightarrow> string" where
  "emitted [] = []"
| "emitted (Copy_result r c # es) = (if c = 0 then r @ emitted es else emitted es)"
| "emitted (e # es) = emitted es"

text \<open>No directory that \<open>filp_open\<close> returns has the \<open>search\<close> operation.\<close>

definition no_native_search :: "vfs \<Rightarrow> bool" where
  "no_native_search v = (\<forall>p fp. filp_open v p = Inr fp \<longrightarrow> f_search fp = None)"

text \<open>
  The invariant of the user buffer, for the buffer \<open>buf\<close> at the call: \<open>ds->next\<close> is at
  the end of the records emitted so far, the buffer holds them from its start, and, once a
  record has been emitted, two terminators follow the last one.
\<close>

definition buffer_holds :: "umem \<Rightarrow> dir_search \<Rightarrow> bool" where
  "buffer_holds buf ds =
     (ds_next ds = int (length (emitted (ds_trace ds)))
      \<and> (\<forall>i < length (emitted (ds_trace ds)). ds_umem ds (int i) = emitted (ds_trace ds) ! i)
      \<and> (if emitted (ds_trace ds) = [] then ds_umem ds = buf
          else ds_umem ds (ds_next ds) = NUL \<and> ds_umem ds (ds_next ds + 1) = NUL))"

subsection \<open>Example filesystems\<close>

text \<open>
  A directory \<open>/r\<close> with a file \<open>a\<close>, a directory \<open>sub\<close> that holds a file \<open>a\<close>, and a
  directory \<open>gone\<close> that cannot be opened any more (\<open>ENOENT\<close>); a directory \<open>/e\<close> with a
  directory \<open>bad\<close> whose open fails with \<open>EIO\<close> (5). Every byte of user memory is
  writable and holds \<open>x\<close> before the call.
\<close>

definition demo_mem :: umem where
  "demo_mem = (\<lambda>_. CHR ''x'')"

definition demo_sub :: kfile where
  "demo_sub = \<lparr> f_path = 2, f_abspath = Inr ''/r/sub'', f_search = None, f_mount = ''/'',
      f_readdir = [(0, [(8, ''a'')])] \<rparr>"

definition demo_root :: kfile where
  "demo_root = \<lparr> f_path = 1, f_abspath = Inr ''/r'', f_search = None, f_mount = ''/'',
      f_readdir = [(0, [(8, ''a''), (4, ''sub''), (4, ''gone'')])] \<rparr>"

definition demo_err :: kfile where
  "demo_err = \<lparr> f_path = 3, f_abspath = Inr ''/e'', f_search = None, f_mount = ''/'',
      f_readdir = [(0, [(4, ''bad'')])] \<rparr>"

definition plain_vfs :: vfs where
  "plain_vfs = \<lparr> access_ok = (\<lambda>_. True), kmalloc_ds = True, kmalloc_dirs = True,
     getname = Inr,
     filp_open = (\<lambda>p. if p = ''/r'' then Inr demo_root
                      else if p = ''/r/sub'' then Inr demo_sub
                      else if p = ''/e'' then Inr demo_err
                      else if p = ''/e/bad'' then Inl (- 5)
                      else Inl (- ENOENT)),
     kern_path = (\<lambda>p. (0, 0)),
     vfs_path_lookup = (\<lambda>k name. (0, 0)),
     vfs_getattr = (\<lambda>k. (0, zero_kstat)),
     huge_encode_dev = (\<lambda>d. d),
     user_writable = (\<lambda>_. True) \<rparr>"

text \<open>The state of a search for \<open>a\<close> under \<open>/r\<close> before the entries of \<open>/r\<close> are
  processed.\<close>

definition demo_state :: dir_search where
  "demo_state = \<lparr> ds_status = 0, ds_results = 0, ds_pattern = ''a'', ds_flags = 0,
     ds_umem = demo_mem, ds_next = 0, ds_len = 100, ds_isrecursive = True, ds_base = 2,
     ds_path = ''/r'', ds_trace = [] \<rparr>"

text \<open>The same state when the walker is about to descend into \<open>/r/gone\<close>.\<close>

definition gone_state :: dir_search where
  "gone_state = demo_state\<lparr>ds_path := ''/r/gone''\<rparr>"

text \<open>
  A filesystem with a native search: the directories \<open>/n2\<close> and \<open>/n5\<close> have the hook
  \<open>f_op->search\<close>, which writes nothing and returns 2 and \<open>-EIO\<close> (-5).
\<close>

definition demo_native :: "int \<Rightarrow> kfile" where
  "demo_native code = \<lparr> f_path = 4, f_abspath = Inr ''/n'',
      f_search = Some (\<lambda>mount rel pat flags m nx len. (code, m)), f_mount = ''/'',
      f_readdir = [] \<rparr>"

definition native_vfs :: vfs where
  "native_vfs = plain_vfs \<lparr> filp_open :=
     (\<lambda>p. if p = ''/n2'' then Inr (demo_native 2)
          else if p = ''/n5'' then Inr (demo_native (- 5))
          else Inl (- ENOENT)) \<rparr>"

text \<open>
  The filesystem above with a directory \<open>/t\<close>: the first call of \<open>vfs_readdir\<close> lists
  a directory \<open>locked\<close>, whose open fails with \<open>EACCES\<close>, before a file \<open>a\<close>, and the
  second call lists a file \<open>b\<close>; and the state of a search for \<open>a\<close> before the entries of
  \<open>/t\<close> are processed.
\<close>

definition demo_top :: kfile where
  "demo_top = \<lparr> f_path = 6, f_abspath = Inr ''/t'', f_search = None, f_mount = ''/'',
      f_readdir = [(0, [(4, ''locked''), (8, ''a'')]), (0, [(8, ''b'')])] \<rparr>"

definition skip_vfs :: vfs where
  "skip_vfs = plain_vfs \<lparr> filp_open :=
     (\<lambda>p. if p = ''/t'' then Inr demo_top
          else if p = ''/t/locked'' then Inl (- EACCES)
          else filp_open plain_vfs p) \<rparr>"

definition top_state :: dir_search where
  "top_state = demo_state\<lparr>ds_path := ''/t''\<rparr>"

text \<open>
  The first filesystem with a directory \<open>/h\<close> that has a native search: the hook writes
  nothing and returns 1 when it is called with \<open>SEARCH_STOPATFIRST\<close> and 2 otherwise.
\<close>

definition demo_honest :: kfile where
  "demo_honest = \<lparr> f_path = 5, f_abspath = Inr ''/h'',
      f_search = Some (\<lambda>mount rel pat flags m nx len.
                         (if flags AND SEARCH_STOPATFIRST \<noteq> 0 then 1 else 2, m)),
      f_mount = ''/'', f_readdir = [] \<rparr>"

definition honest_vfs :: vfs where
  "honest_vfs = plain_vfs \<lparr> filp_open :=
     (\<lambda>p. if p = ''/h'' then Inr demo_honest else filp_open plain_vfs p) \<rparr>"

section \<open>Properties of the matchers\<close>

lemma star_attempts_Nil:
  "star_attempts n [] pat = [uu_match_pathname (n + 1) [] pat]"
  by (simp add: star_attempts_def)

lemma star_attempts_Cons:
  "star_attempts n (p # ps) pat =
     uu_match_pathname (n + 1) (p # ps) pat #
       (if p = CHR ''/'' then [] else star_attempts n ps pat)"
proof -
  have "[0 ..< Suc (Suc m)] = 0 # map Suc [0 ..< Suc m]" for m
    by (metis map_Suc_upt upt_conv_Cons zero_less_Suc)
  then have step: "map f [0 ..< Suc (Suc m)] = f 0 # map (\<lambda>k. f (Suc k)) [0 ..< Suc m]"
    for m and f :: "nat \<Rightarrow> search_matched"
    by (simp add: comp_def del: upt_Suc)
  show ?thesis
  proof (cases "p = CHR ''/''")
    case True
    then show ?thesis by (simp add: star_attempts_def)
  next
    case False
    then show ?thesis by (simp add: star_attempts_def step del: upt_Suc)
  qed
qed

lemma match_star_first:
  "match_star n path pat = first_non_failure (star_attempts n path pat)"
proof (induction path)
  case Nil
  show ?case
    by (subst match_star.simps) (simp add: star_attempts_Nil Let_def)
next
  case (Cons p ps)
  show ?case
    by (subst match_star.simps) (simp add: star_attempts_Cons Let_def Cons.IH)
qed

lemmas matcher_eval =
  uu_match_pathname.simps match_star.simps is_filename_def
  match_pathname_def match_paths.simps match_alts.simps strchrskip_def

text \<open>
  C1. At \<open>*\<close> the segment matcher returns the first outcome other than \<open>Failure\<close> among
  the attempts that consume 0, 1, 2, ... characters of the path, the empty match first,
  up to the first separator or the end of the path and never beyond it. So \<open>*\<close> against
  the empty path is \<open>Success\<close>, and \<open>/a*b\<close> matches \<open>/axxb\<close> but not \<open>/axx/b\<close>, in the
  segment matcher and in the path-pattern matcher.
\<close>

theorem star_tries_shortest_first_within_segment:
  "match_loop n path (CHR ''*'' # pat) = first_non_failure (star_attempts n path pat)
   \<and> uu_match_pathname 0 [] ''*'' = SEARCH_MATCH_SUCCESS
   \<and> uu_match_pathname 0 ''/axxb'' ''/a*b'' = SEARCH_MATCH_SUCCESS
   \<and> uu_match_pathname 0 ''/axx/b'' ''/a*b'' = SEARCH_MATCH_FAILURE
   \<and> match_pathname ''/axxb'' ''/a*b'' = Some SEARCH_MATCH_SUCCESS
   \<and> match_pathname ''/axx/b'' ''/a*b'' = Some SEARCH_MATCH_FAILURE"
proof -
  have a: "match_loop n path (CHR ''*'' # pat) = first_non_failure (star_attempts n path pat)"
    by (simp add: match_star_first)
  have b: "uu_match_pathname 0 [] ''*'' = SEARCH_MATCH_SUCCESS"
    by (simp add: matcher_eval)
  have c: "uu_match_pathname 0 ''/axxb'' ''/a*b'' = SEARCH_MATCH_SUCCESS"
    by (simp add: matcher_eval)
  have d: "uu_match_pathname 0 ''/axx/b'' ''/a*b'' = SEARCH_MATCH_FAILURE"
    by (simp add: matcher_eval)
  have e: "match_pathname ''/axxb'' ''/a*b'' = Some SEARCH_MATCH_SUCCESS"
    by (simp add: matcher_eval)
  have f: "match_pathname ''/axx/b'' ''/a*b'' = Some SEARCH_MATCH_FAILURE"
    by (simp add: matcher_eval)
  from a b c d e f show ?thesis by blast
qed

lemma stars_overflow:
  "nat (8 - n) \<le> k \<Longrightarrow>
   uu_match_pathname n path (replicate k (CHR ''*'') @ rest) = SEARCH_MATCH_OVERFLOW"
proof (induction k arbitrary: n)
  case 0
  then show ?case by (simp add: uu_match_pathname.simps)
next
  case (Suc k)
  show ?case
  proof (cases "8 \<le> n")
    case True
    then show ?thesis by (simp add: uu_match_pathname.simps)
  next
    case False
    with Suc.prems have "nat (8 - (n + 1)) \<le> k" by simp
    from Suc.IH [OF this]
    have "uu_match_pathname (n + 1) path (replicate k (CHR ''*'') @ rest) = SEARCH_MATCH_OVERFLOW" .
    with False show ?thesis
      by (simp add: Let_def uu_match_pathname.simps [of n] match_star.simps [of n])
  qed
qed

text \<open>
  C5. The segment matcher is a total function (its definition comes with a termination
  proof, so it has a value on every recursion count, path and pattern), the value is
  one of the four outcomes, it is \<open>Overflow\<close> whenever the recursion count is 8 or more,
  and a pattern of 20 stars against any path gives \<open>Overflow\<close>.
\<close>

theorem segment_matcher_total_and_bounded:
  "(8 \<le> n \<longrightarrow> uu_match_pathname n path pat = SEARCH_MATCH_OVERFLOW)
   \<and> uu_match_pathname 0 path (replicate 20 (CHR ''*'')) = SEARCH_MATCH_OVERFLOW
   \<and> uu_match_pathname n path pat \<in>
       {SEARCH_MATCH_FAILURE, SEARCH_MATCH_PARTIAL, SEARCH_MATCH_SUCCESS, SEARCH_MATCH_OVERFLOW}"
proof -
  have "uu_match_pathname 0 path (replicate 20 (CHR ''*'') @ []) = SEARCH_MATCH_OVERFLOW"
    by (rule stars_overflow) simp
  moreover have "uu_match_pathname n path pat \<in>
       {SEARCH_MATCH_FAILURE, SEARCH_MATCH_PARTIAL, SEARCH_MATCH_SUCCESS, SEARCH_MATCH_OVERFLOW}"
    by (cases "uu_match_pathname n path pat") simp_all
  ultimately show ?thesis by (simp add: uu_match_pathname.simps)
qed

theorem segment_matcher_total_and_bounded_witness:
  "(8::int) \<le> 9 \<and> uu_match_pathname 9 ''abc'' ''a*c'' = SEARCH_MATCH_OVERFLOW
   \<and> uu_match_pathname 0 ''abc'' (replicate 20 (CHR ''*'')) = SEARCH_MATCH_OVERFLOW"
  using segment_matcher_total_and_bounded [of 9 "''abc''" "''a*c''"] by simp

lemma bracket_never_success:
  "CHR ''['' \<in> set (takeWhile (\<lambda>c. c \<noteq> CHR ''|'') pat) \<Longrightarrow>
     uu_match_pathname n path pat \<noteq> SEARCH_MATCH_SUCCESS"
  "CHR ''['' \<in> set (takeWhile (\<lambda>c. c \<noteq> CHR ''|'') pat) \<Longrightarrow>
     match_loop n path pat \<noteq> SEARCH_MATCH_SUCCESS"
  "CHR ''['' \<in> set (takeWhile (\<lambda>c. c \<noteq> CHR ''|'') pat) \<Longrightarrow>
     match_star n path pat \<noteq> SEARCH_MATCH_SUCCESS"
proof (induction n path pat and n path pat and n path pat
       rule: uu_match_pathname_match_loop_match_star.induct)
  case (1 n pathname pattern)
  then show ?case by (simp add: uu_match_pathname.simps)
next
  case (2 n pathname)
  then show ?case by simp
next
  case (3 n pathname c pattern)
  show ?case
  proof (cases "c = CHR ''?''")
    case True
    with "3.prems" have mem: "CHR ''['' \<in> set (takeWhile (\<lambda>c. c \<noteq> CHR ''|'') pattern)"
      by simp
    from "3.IH" True mem
    have a: "\<not> is_filename pathname \<Longrightarrow> match_loop n pathname pattern \<noteq> SEARCH_MATCH_SUCCESS"
      by auto
    from "3.IH" True mem
    have a': "is_filename pathname \<Longrightarrow>
        uu_match_pathname (n + 1) (tl pathname) pattern = SEARCH_MATCH_FAILURE \<Longrightarrow>
        match_loop n pathname pattern \<noteq> SEARCH_MATCH_SUCCESS"
      by auto
    from "3.IH" True mem
    have b: "is_filename pathname \<Longrightarrow>
        uu_match_pathname (n + 1) (tl pathname) pattern \<noteq> SEARCH_MATCH_SUCCESS"
      by auto
    from True a a' b show ?thesis by (auto simp: Let_def)
  next
    case False
    with 3 show ?thesis
      by (auto simp: Let_def split: if_splits list.splits)
  qed
next
  case (4 n pathname pattern)
  show ?case
    apply (subst match_star.simps)
    using 4 by (auto simp: Let_def split: list.splits)
qed

lemma strchr_None: "c \<notin> set s \<Longrightarrow> strchr s c = None"
  by (induction s) auto

lemma match_alts_bracket:
  assumes "CHR ''['' \<in> set pat" and "CHR ''|'' \<notin> set pat"
  shows "match_alts path pat \<noteq> Some SEARCH_MATCH_SUCCESS"
proof -
  from assms(2) have tw: "takeWhile (\<lambda>c. c \<noteq> CHR ''|'') pat = pat"
    by (auto simp: takeWhile_eq_all_conv)
  from assms(1) have ne: "pat \<noteq> []" by auto
  from assms(2) ne have "CHR ''|'' \<notin> set (tl pat)"
    by (cases pat) auto
  then have skip: "strchrskip (tl pat) (CHR ''|'') = None"
    by (simp add: strchrskip_def strchr_None)
  from assms(1) have "CHR ''['' \<in> set (takeWhile (\<lambda>c. c \<noteq> CHR ''|'') pat)"
    by (simp only: tw)
  then have ns: "uu_match_pathname 0 p pat \<noteq> SEARCH_MATCH_SUCCESS" for p
    by (rule bracket_never_success(1))
  show ?thesis
    by (subst match_alts.simps) (use ne skip ns in \<open>auto simp: Let_def\<close>)
qed

lemma match_paths_bracket:
  assumes "CHR ''['' \<in> set pat" and "CHR ''|'' \<notin> set pat"
  shows "match_paths path pat \<noteq> Some SEARCH_MATCH_SUCCESS"
  using assms
proof (induction path pat rule: match_paths.induct)
  case (1 path pattern)
  from "1.prems" have alts: "match_alts path pattern \<noteq> Some SEARCH_MATCH_SUCCESS"
    by (rule match_alts_bracket)
  show ?case
    apply (subst match_paths.simps)
    using 1 alts
    by (auto split: option.splits)
qed

text \<open>
  C8, as stated, fails: a pattern that contains \<open>[\<close> can match. The alternatives of a
  pattern are tried one after the other, so \<open>a|[\<close> matches the candidate \<open>/a\<close> through
  its first alternative.
\<close>

theorem bracket_pattern_matches_counterexample:
  "CHR ''['' \<in> set ''a|[''
   \<and> match_pathname ''/a'' ''a|['' = Some SEARCH_MATCH_SUCCESS"
  by (simp add: matcher_eval)

text \<open>
  C8, amended. An alternative that contains \<open>[\<close> never succeeds in the matchers of the
  tree walk: when \<open>[\<close> occurs in the pattern before its first \<open>|\<close>, the segment matcher
  does not return \<open>Success\<close>, for any recursion count and path; and when the pattern has
  no \<open>|\<close> at all, the path-pattern matcher does not return \<open>Success\<close> for any
  candidate.
\<close>

theorem bracket_alternative_never_succeeds:
  assumes "CHR ''['' \<in> set (takeWhile (\<lambda>c. c \<noteq> CHR ''|'') pat)"
  shows "uu_match_pathname n path pat \<noteq> SEARCH_MATCH_SUCCESS
         \<and> (CHR ''|'' \<notin> set pat \<longrightarrow> match_pathname cand pat \<noteq> Some SEARCH_MATCH_SUCCESS)"
proof -
  from assms have "CHR ''['' \<in> set pat" by (rule set_takeWhileD [THEN conjunct1])
  then have "CHR ''|'' \<notin> set pat \<Longrightarrow> match_pathname cand pat \<noteq> Some SEARCH_MATCH_SUCCESS"
    unfolding match_pathname_def by (rule match_paths_bracket)
  with bracket_never_success(1) [OF assms] show ?thesis by blast
qed

theorem bracket_alternative_never_succeeds_witness:
  "CHR ''['' \<in> set (takeWhile (\<lambda>c. c \<noteq> CHR ''|'') ''/a[b'')
   \<and> CHR ''|'' \<notin> set ''/a[b''
   \<and> uu_match_pathname 0 ''/a[b'' ''/a[b'' \<noteq> SEARCH_MATCH_SUCCESS
   \<and> match_pathname ''/a[b'' ''/a[b'' \<noteq> Some SEARCH_MATCH_SUCCESS"
  using bracket_alternative_never_succeeds [of "''/a[b''" 0 "''/a[b''" "''/a[b''"] by simp

section \<open>A proof rule for the tree walker\<close>

text \<open>
  Properties of a whole walk are proved once and for all through a rule in the style of
  a Hoare logic. For a depth \<open>n\<close> and the state \<open>ds\<close> on entry, \<open>Pre n ds\<close> is assumed on
  entry, \<open>Run n ds cur\<close> holds of the current state \<open>cur\<close> wherever the loops of this
  depth continue, \<open>Out n ds cur\<close> holds at the label \<open>exit\<close>, and \<open>Post n ds st ds'\<close> holds
  of the return value and the state on return. The premises of the rule are facts
  about the single steps of the walker.
\<close>

lemma has_flag_simps [simp]:
  "has_flag (ds\<lparr>ds_status := a\<rparr>) f = has_flag ds f"
  "has_flag (ds\<lparr>ds_results := b\<rparr>) f = has_flag ds f"
  "has_flag (ds\<lparr>ds_path := c\<rparr>) f = has_flag ds f"
  "has_flag (ds\<lparr>ds_base := d\<rparr>) f = has_flag ds f"
  "has_flag (ds\<lparr>ds_umem := e\<rparr>) f = has_flag ds f"
  "has_flag (ds\<lparr>ds_next := g\<rparr>) f = has_flag ds f"
  "has_flag (ds\<lparr>ds_len := h\<rparr>) f = has_flag ds f"
  "has_flag (ds\<lparr>ds_trace := i\<rparr>) f = has_flag ds f"
  "has_flag (log_event ev ds) f = has_flag ds f"
  by (simp_all add: has_flag_def log_event_def)

lemma descend_entry_rule:
  assumes path: "\<And>cur p. Run cur \<Longrightarrow> Run (cur\<lparr>ds_path := p\<rparr>)"
    and descend: "\<And>cur st cur'. Run cur \<Longrightarrow> descend cur = Some (st, cur') \<Longrightarrow>
                   (if st \<noteq> 0 \<or> (ds_results cur' > 0 \<and> has_flag cur' SEARCH_STOPATFIRST)
                    then Out (cur'\<lparr>ds_status := st\<rparr>) else Run (cur'\<lparr>ds_status := st\<rparr>))"
    and inv: "Run cur"
    and run: "descend_entry descend dir type entry how cur = Some (fl, cur')"
  shows "case fl of Continue \<Rightarrow> Run cur' | Exit \<Rightarrow> Out cur'"
proof (cases "type = CHR ''d'' \<and> entry \<noteq> ''.'' \<and> entry \<noteq> ''..''
                \<and> (how = SEARCH_MATCH_PARTIAL \<or> ds_isrecursive cur)")
  case False
  with run have "fl = Continue" "cur' = cur\<lparr>ds_path := take dir (ds_path cur)\<rparr>"
    by (auto simp: descend_entry_def)
  with path [OF inv] show ?thesis by simp
next
  case True
  with run obtain st ds3 where d: "descend cur = Some (st, ds3)"
    by (auto simp: descend_entry_def split: option.splits)
  note post = descend [OF inv d]
  show ?thesis
  proof (cases "st \<noteq> 0 \<or> (ds_results ds3 > 0 \<and> has_flag ds3 SEARCH_STOPATFIRST)")
    case c: True
    with run True d have "fl = Exit" "cur' = ds3\<lparr>ds_status := st\<rparr>"
      by (auto simp: descend_entry_def Let_def split: if_splits)
    with post c show ?thesis by simp
  next
    case c: False
    with run True d
    have "fl = Continue" "cur' = ds3\<lparr>ds_status := st, ds_path := take dir (ds_path ds3)\<rparr>"
      by (auto simp: descend_entry_def Let_def split: if_splits)
    moreover from post c have "Run (ds3\<lparr>ds_status := st\<rparr>)" by (auto split: if_splits)
    from path [OF this] have "Run (ds3\<lparr>ds_status := st, ds_path := take dir (ds_path ds3)\<rparr>)"
      by simp
    ultimately show ?thesis by simp
  qed
qed

lemma search_entry_SomeE:
  assumes run: "search_entry v descend fp dir (type, entry) cur = Some res"
  obtains how fl2 ds2 where
    "match_pathname (drop (ds_base cur) (ds_path cur @ ''/'' @ entry)) (ds_pattern cur) = Some how"
    "(if how = SEARCH_MATCH_SUCCESS
      then report_match v fp entry (cur\<lparr>ds_path := ds_path cur @ ''/'' @ entry\<rparr>)
      else (Continue, cur\<lparr>ds_path := ds_path cur @ ''/'' @ entry\<rparr>)) = (fl2, ds2)"
    "(case fl2 of Exit \<Rightarrow> Some (Exit, ds2)
      | Continue \<Rightarrow> descend_entry descend dir type entry how ds2) = Some res"
proof -
  from run obtain how where
    how: "match_pathname (drop (ds_base cur) (ds_path cur @ ''/'' @ entry)) (ds_pattern cur) = Some how"
    by (auto simp: search_entry_def Let_def split: if_splits option.splits)
  obtain fl2 ds2 where
    r: "(if how = SEARCH_MATCH_SUCCESS
         then report_match v fp entry (cur\<lparr>ds_path := ds_path cur @ ''/'' @ entry\<rparr>)
         else (Continue, cur\<lparr>ds_path := ds_path cur @ ''/'' @ entry\<rparr>)) = (fl2, ds2)"
    by (metis surj_pair)
  from run how r have "(case fl2 of Exit \<Rightarrow> Some (Exit, ds2)
      | Continue \<Rightarrow> descend_entry descend dir type entry how ds2) = Some res"
    by (auto simp: search_entry_def Let_def split: if_splits flow.splits)
  with how r show ?thesis by (rule that)
qed

lemma search_entry_rule:
  assumes path: "\<And>cur p. Run cur \<Longrightarrow> Run (cur\<lparr>ds_path := p\<rparr>)"
    and report: "\<And>cur entry fl cur'. Run cur \<Longrightarrow> report_match v fp entry cur = (fl, cur') \<Longrightarrow>
                   (case fl of Continue \<Rightarrow> Run cur' | Exit \<Rightarrow> Out cur')"
    and descend: "\<And>cur st cur'. Run cur \<Longrightarrow> descend cur = Some (st, cur') \<Longrightarrow>
                   (if st \<noteq> 0 \<or> (ds_results cur' > 0 \<and> has_flag cur' SEARCH_STOPATFIRST)
                    then Out (cur'\<lparr>ds_status := st\<rparr>) else Run (cur'\<lparr>ds_status := st\<rparr>))"
    and inv: "Run cur"
    and run: "search_entry v descend fp dir e cur = Some (fl, cur')"
  shows "case fl of Continue \<Rightarrow> Run cur' | Exit \<Rightarrow> Out cur'"
proof -
  obtain type entry where e: "e = (type, entry)" by (cases e)
  from run [unfolded e] obtain how fl2 ds2 where
    how: "match_pathname (drop (ds_base cur) (ds_path cur @ ''/'' @ entry)) (ds_pattern cur) = Some how" and
    r: "(if how = SEARCH_MATCH_SUCCESS
         then report_match v fp entry (cur\<lparr>ds_path := ds_path cur @ ''/'' @ entry\<rparr>)
         else (Continue, cur\<lparr>ds_path := ds_path cur @ ''/'' @ entry\<rparr>)) = (fl2, ds2)"
    and d: "(case fl2 of Exit \<Rightarrow> Some (Exit, ds2)
             | Continue \<Rightarrow> descend_entry descend dir type entry how ds2) = Some (fl, cur')"
    by (rule search_entry_SomeE)
  have inv1: "Run (cur\<lparr>ds_path := ds_path cur @ ''/'' @ entry\<rparr>)" by (rule path [OF inv])
  have inv2: "case fl2 of Continue \<Rightarrow> Run ds2 | Exit \<Rightarrow> Out ds2"
  proof (cases "how = SEARCH_MATCH_SUCCESS")
    case True
    with r report [OF inv1] show ?thesis by simp
  next
    case False
    with r inv1 show ?thesis by auto
  qed
  show ?thesis
  proof (cases fl2)
    case Exit
    with d inv2 show ?thesis by auto
  next
    case Continue
    with inv2 have "Run ds2" by simp
    moreover from d Continue have "descend_entry descend dir type entry how ds2 = Some (fl, cur')"
      by simp
    ultimately show ?thesis
      by (rule descend_entry_rule [where Run = Run and Out = Out and descend = descend,
            rotated 2]) (erule path, erule (1) descend)
  qed
qed

lemma entry_loop_rule:
  assumes path: "\<And>cur p. Run cur \<Longrightarrow> Run (cur\<lparr>ds_path := p\<rparr>)"
    and report: "\<And>cur entry fl cur'. Run cur \<Longrightarrow> report_match v fp entry cur = (fl, cur') \<Longrightarrow>
                   (case fl of Continue \<Rightarrow> Run cur' | Exit \<Rightarrow> Out cur')"
    and descend: "\<And>cur st cur'. Run cur \<Longrightarrow> descend cur = Some (st, cur') \<Longrightarrow>
                   (if st \<noteq> 0 \<or> (ds_results cur' > 0 \<and> has_flag cur' SEARCH_STOPATFIRST)
                    then Out (cur'\<lparr>ds_status := st\<rparr>) else Run (cur'\<lparr>ds_status := st\<rparr>))"
  shows "Run cur \<Longrightarrow> entry_loop v descend fp dir es cur = Some (fl, cur') \<Longrightarrow>
         (case fl of Continue \<Rightarrow> Run cur' | Exit \<Rightarrow> Out cur')"
proof (induction es arbitrary: cur)
  case Nil
  then show ?case by simp
next
  case (Cons e es)
  from Cons.prems(2) obtain fl1 ds1 where
    s: "search_entry v descend fp dir e cur = Some (fl1, ds1)"
    by (auto split: option.splits)
  note step = search_entry_rule [OF path report descend Cons.prems(1) s]
  show ?case
  proof (cases fl1)
    case Exit
    with Cons.prems(2) s step show ?thesis by simp
  next
    case Continue
    with step have "Run ds1" by simp
    moreover from Cons.prems(2) s Continue
    have "entry_loop v descend fp dir es ds1 = Some (fl, cur')" by simp
    ultimately show ?thesis by (rule Cons.IH)
  qed
qed

lemma readdir_loop_rule:
  assumes path: "\<And>cur p. Run cur \<Longrightarrow> Run (cur\<lparr>ds_path := p\<rparr>)"
    and report: "\<And>cur entry fl cur'. Run cur \<Longrightarrow> report_match v fp entry cur = (fl, cur') \<Longrightarrow>
                   (case fl of Continue \<Rightarrow> Run cur' | Exit \<Rightarrow> Out cur')"
    and descend: "\<And>cur st cur'. Run cur \<Longrightarrow> descend cur = Some (st, cur') \<Longrightarrow>
                   (if st \<noteq> 0 \<or> (ds_results cur' > 0 \<and> has_flag cur' SEARCH_STOPATFIRST)
                    then Out (cur'\<lparr>ds_status := st\<rparr>) else Run (cur'\<lparr>ds_status := st\<rparr>))"
    and readdir: "\<And>cur st. Run cur \<Longrightarrow> Run (cur\<lparr>ds_status := 0\<rparr>) \<and> Out (cur\<lparr>ds_status := st\<rparr>)"
  shows "Run cur \<Longrightarrow> readdir_loop v descend fp batches cur = Some cur' \<Longrightarrow> Out cur'"
proof (induction batches arbitrary: cur)
  case Nil
  with readdir [of cur 0] show ?case by auto
next
  case (Cons b batches)
  obtain st offered where b: "b = (st, offered)" by (cases b)
  let ?ents = "snd (vfs_readdir offered (0, []))"
  let ?ds1 = "cur\<lparr>ds_status := st\<rparr>"
  show ?case
  proof (cases "st \<noteq> 0 \<or> ?ents = []")
    case True
    with Cons.prems(2) have "cur' = ?ds1"
      by (auto simp: b Let_def split: if_splits)
    with readdir [OF Cons.prems(1), of st] show ?thesis by simp
  next
    case False
    then have st: "st = 0" and ne: "?ents \<noteq> []" by simp_all
    from readdir [OF Cons.prems(1), of 0] st have r1: "Run ?ds1" by simp
    from Cons.prems(2) st ne obtain fl2 ds2 where
      el: "entry_loop v descend fp (length (ds_path ?ds1)) ?ents ?ds1 = Some (fl2, ds2)"
      by (auto simp: b Let_def split: option.splits)
    note post = entry_loop_rule [where Run = Run and Out = Out, OF path report descend r1 el]
    show ?thesis
    proof (cases fl2)
      case Exit
      with Cons.prems(2) st ne el have "cur' = ds2"
        by (simp add: b Let_def)
      with post Exit show ?thesis by simp
    next
      case Continue
      with Cons.prems(2) st ne el have "readdir_loop v descend fp batches ds2 = Some cur'"
        by (simp add: b Let_def)
      moreover from post Continue have "Run ds2" by simp
      ultimately show ?thesis using Cons.IH by blast
    qed
  qed
qed


lemma search_directory_rule:
  fixes Pre :: "nat \<Rightarrow> dir_search \<Rightarrow> bool"
    and Run Out :: "nat \<Rightarrow> dir_search \<Rightarrow> dir_search \<Rightarrow> bool"
    and Post :: "nat \<Rightarrow> dir_search \<Rightarrow> int \<Rightarrow> dir_search \<Rightarrow> bool"
  assumes enter_ret: "\<And>n ds st ds'. Pre n ds \<Longrightarrow> enter_directory v ds n = Inl (st, ds') \<Longrightarrow>
                        Post n ds st ds'"
    and enter_ok: "\<And>n ds fp ds3. Pre n ds \<Longrightarrow> enter_directory v ds n = Inr (fp, ds3) \<Longrightarrow>
                        f_search fp = None \<Longrightarrow> Run n ds ds3"
    and native: "\<And>n ds fp ds3 b ds4. Pre n ds \<Longrightarrow> enter_directory v ds n = Inr (fp, ds3) \<Longrightarrow>
                        native_search fp ds3 = Some (b, ds4) \<Longrightarrow>
                        Post n ds (ds_status ds4) (if b then ds4 else log_event (Close n) ds4)"
    and path: "\<And>n ds cur p. Run n ds cur \<Longrightarrow> Run n ds (cur\<lparr>ds_path := p\<rparr>)"
    and report: "\<And>n ds fp cur entry fl cur'. Run n ds cur \<Longrightarrow>
                        report_match v fp entry cur = (fl, cur') \<Longrightarrow>
                        (case fl of Continue \<Rightarrow> Run n ds cur' | Exit \<Rightarrow> Out n ds cur')"
    and readdir: "\<And>n ds cur st. Run n ds cur \<Longrightarrow>
                        Run n ds (cur\<lparr>ds_status := 0\<rparr>) \<and> Out n ds (cur\<lparr>ds_status := st\<rparr>)"
    and descend_pre: "\<And>n ds cur. Run n ds cur \<Longrightarrow> Pre (Suc n) cur"
    and descend_post: "\<And>n ds cur st cur'. Run n ds cur \<Longrightarrow> Post (Suc n) cur st cur' \<Longrightarrow>
                        (if st \<noteq> 0 \<or> (ds_results cur' > 0 \<and> has_flag cur' SEARCH_STOPATFIRST)
                         then Out n ds (cur'\<lparr>ds_status := st\<rparr>)
                         else Run n ds (cur'\<lparr>ds_status := st\<rparr>))"
    and exit: "\<And>n ds cur. Out n ds cur \<Longrightarrow> Post n ds (ds_status cur) (log_event (Close n) cur)"
  shows "Pre n ds \<Longrightarrow> search_directory v ds n = Some (st, ds') \<Longrightarrow> Post n ds st ds'"
  using assms
proof (induction v ds n arbitrary: st ds' rule: search_directory.induct)
  case (1 v ds n)
  note pre = "1.prems"(1)
  note run = "1.prems"(2)
  note rules = "1.prems"(3-11)
  show ?case
  proof (cases "enter_directory v ds n")
    case (Inl r)
    with run have "enter_directory v ds n = Inl (st, ds')"
      by (subst (asm) search_directory.simps) simp
    with pre show ?thesis by (rule rules(1))
  next
    case (Inr x)
    obtain fp ds3 where x: "x = (fp, ds3)" by (cases x)
    note ent = Inr [unfolded x]
    have run': "(if f_search fp \<noteq> None then
            (case native_search fp ds3 of
               None \<Rightarrow> None
             | Some (True, ds4) \<Rightarrow> Some (ds_status ds4, ds4)
             | Some (False, ds4) \<Rightarrow> Some (ds_status ds4, log_event (Close n) ds4))
          else
            (case readdir_loop v (\<lambda>ds'. search_directory v ds' (n + 1)) fp (f_readdir fp) ds3 of
               None \<Rightarrow> None
             | Some ds4 \<Rightarrow> Some (ds_status ds4, log_event (Close n) ds4))) = Some (st, ds')"
      using run by (subst (asm) search_directory.simps) (simp add: ent)
    show ?thesis
    proof (cases "f_search fp = None")
      case False
      with run' have r: "(case native_search fp ds3 of
               None \<Rightarrow> None
             | Some (True, ds4) \<Rightarrow> Some (ds_status ds4, ds4)
             | Some (False, ds4) \<Rightarrow> Some (ds_status ds4, log_event (Close n) ds4)) = Some (st, ds')"
        by simp
      then obtain b ds4 where nat: "native_search fp ds3 = Some (b, ds4)"
        by (cases "native_search fp ds3") auto
      with r have res: "st = ds_status ds4" "ds' = (if b then ds4 else log_event (Close n) ds4)"
        by (cases b; simp)+
      from rules(3) [OF pre ent nat] res show ?thesis by simp
    next
      case True
      with run' have r: "(case readdir_loop v (\<lambda>ds'. search_directory v ds' (n + 1)) fp (f_readdir fp) ds3 of
               None \<Rightarrow> None
             | Some ds4 \<Rightarrow> Some (ds_status ds4, log_event (Close n) ds4)) = Some (st, ds')"
        by simp
      then obtain ds4 where
        loop: "readdir_loop v (\<lambda>ds'. search_directory v ds' (n + 1)) fp (f_readdir fp) ds3 = Some ds4"
        by (cases "readdir_loop v (\<lambda>ds'. search_directory v ds' (n + 1)) fp (f_readdir fp) ds3") auto
      with r have res: "st = ds_status ds4" "ds' = log_event (Close n) ds4"
        by simp_all
      have r3: "Run n ds ds3" by (rule rules(2) [OF pre ent True])
      have "Out n ds ds4"
      proof (rule readdir_loop_rule [where Run = "Run n ds" and Out = "Out n ds", rotated 4, OF r3 loop])
        show "Run n ds (cur\<lparr>ds_path := p\<rparr>)" if "Run n ds cur" for cur p
          using that by (rule rules(4))
        show "case fl of Continue \<Rightarrow> Run n ds cur' | Exit \<Rightarrow> Out n ds cur'"
          if "Run n ds cur" "report_match v fp entry cur = (fl, cur')" for cur entry fl cur'
          using that by (rule rules(5))
        show "Run n ds (cur\<lparr>ds_status := 0\<rparr>) \<and> Out n ds (cur\<lparr>ds_status := st\<rparr>)"
          if "Run n ds cur" for cur st
          using that by (rule rules(6))
        show "if st \<noteq> 0 \<or> (ds_results cur' > 0 \<and> has_flag cur' SEARCH_STOPATFIRST)
              then Out n ds (cur'\<lparr>ds_status := st\<rparr>) else Run n ds (cur'\<lparr>ds_status := st\<rparr>)"
          if rc: "Run n ds cur" and d: "search_directory v cur (n + 1) = Some (st, cur')"
          for cur st cur'
        proof -
          from rc have "Pre (Suc n) cur" by (rule rules(7))
          then have p: "Pre (n + 1) cur" by simp
          from True have nn: "\<not> f_search fp \<noteq> None" by simp
          have "Post (n + 1) cur st cur'"
            by (rule "1.IH" [OF ent refl nn p d rules])
          then have "Post (Suc n) cur st cur'" by simp
          with rc show ?thesis by (rule rules(8))
        qed
      qed
      from rules(9) [OF this] res show ?thesis by simp
    qed
  qed
qed


section \<open>Properties of the walker\<close>

lemmas walker_eval =
  sys_search_def Let_def ispattern_def isrecursive.simps strchrskip_def
  search_directory.simps [of _ _ 0] search_directory.simps [of _ _ "Suc 0"]
  enter_directory_def log_event_def abspath_def TREE_DEPTH_def PATH_MAX_def SEARCH_BUF_def
  search_filldir_def DT_DIR_def search_entry_def descend_entry_def report_match_def
  copy_search_result_def result_string_def has_flag_def flag_defs errno_defs NUL_def
  matcher_eval native_search_def search_literal_def finish_search_def init_search_def

lemmas demo_defs =
  plain_vfs_def native_vfs_def demo_root_def demo_sub_def demo_err_def demo_native_def
  demo_mem_def run_outcome_def run_trace_def run_buffer_def

lemma log_event_simps [simp]:
  "ds_trace (log_event e ds) = ds_trace ds @ [e]"
  "ds_status (log_event e ds) = ds_status ds"
  "ds_results (log_event e ds) = ds_results ds"
  "ds_pattern (log_event e ds) = ds_pattern ds"
  "ds_flags (log_event e ds) = ds_flags ds"
  "ds_umem (log_event e ds) = ds_umem ds"
  "ds_next (log_event e ds) = ds_next ds"
  "ds_len (log_event e ds) = ds_len ds"
  "ds_isrecursive (log_event e ds) = ds_isrecursive ds"
  "ds_base (log_event e ds) = ds_base ds"
  "ds_path (log_event e ds) = ds_path ds"
  by (simp_all add: log_event_def)

text \<open>The ways through \<open>copy_search_result\<close> and \<open>report_match\<close>.\<close>

lemma copy_search_result_cases:
  assumes "copy_search_result v ds p stat = (st, ds')"
  obtains
    (range) "ds_len ds < length (result_string v ds p stat) + 2" "st = - ERANGE"
      "ds' = log_event (Copy_result (result_string v ds p stat) (- ERANGE)) ds"
  | (fault) left m where "length (result_string v ds p stat) + 2 \<le> ds_len ds"
      "copy_to_user (user_writable v) (ds_umem ds) (ds_next ds)
         (result_string v ds p stat @ [NUL, NUL]) = (left, m)"
      "left \<noteq> 0" "st = - EFAULT"
      "ds' = log_event (Copy_result (result_string v ds p stat) (- EFAULT)) (ds\<lparr>ds_umem := m\<rparr>)"
  | (copied) m where "length (result_string v ds p stat) + 2 \<le> ds_len ds"
      "copy_to_user (user_writable v) (ds_umem ds) (ds_next ds)
         (result_string v ds p stat @ [NUL, NUL]) = (0, m)"
      "st = 0"
      "ds' = log_event (Copy_result (result_string v ds p stat) 0)
               (ds\<lparr>ds_umem := m,
                   ds_next := ds_next ds + int (length (result_string v ds p stat)),
                   ds_len := ds_len ds - length (result_string v ds p stat)\<rparr>)"
  using assms unfolding copy_search_result_def Let_def
  by (auto split: if_splits prod.splits)

lemma result_string_status [simp]:
  "result_string v (ds\<lparr>ds_status := s\<rparr>) p stat = result_string v ds p stat"
  by (simp add: result_string_def)

lemma report_match_cases:
  assumes "report_match v fp entry ds = (fl, ds')"
  obtains
    (lookup) st where "st \<noteq> 0" "fl = Exit" "ds' = ds\<lparr>ds_status := st\<rparr>"
  | (copy) p stat st dsc where "copy_search_result v (ds\<lparr>ds_status := 0\<rparr>) p stat = (st, dsc)"
      "st \<noteq> 0" "fl = Exit" "ds' = dsc\<lparr>ds_status := st\<rparr>"
  | (reported) p stat dsc where "copy_search_result v (ds\<lparr>ds_status := 0\<rparr>) p stat = (0, dsc)"
      "fl = (if has_flag ds SEARCH_STOPATFIRST then Exit else Continue)"
      "ds' = dsc\<lparr>ds_status := 0, ds_results := ds_results dsc + 1\<rparr>"
proof -
  obtain st1 p where l: "vfs_path_lookup v (f_path fp) entry = (st1, p)" by fastforce
  show ?thesis
  proof (cases "st1 = 0")
    case False
    with assms l have "fl = Exit" "ds' = ds\<lparr>ds_status := st1\<rparr>"
      by (simp_all add: report_match_def Let_def)
    with False show ?thesis by (rule lookup)
  next
    case st1: True
    obtain st2 stat where
      g: "(if has_flag ds SEARCH_METADATA then vfs_getattr v p else (0, zero_kstat)) = (st2, stat)"
      by fastforce
    show ?thesis
    proof (cases "st2 = 0")
      case False
      with assms l st1 g have "fl = Exit" "ds' = ds\<lparr>ds_status := st2\<rparr>"
        by (simp_all add: report_match_def Let_def)
      with False show ?thesis by (rule lookup)
    next
      case st2: True
      let ?p = "if has_flag ds SEARCH_INCLUDEROOT then ds_path (ds\<lparr>ds_status := 0\<rparr>) else entry"
      obtain st3 dsc where c: "copy_search_result v (ds\<lparr>ds_status := 0\<rparr>) ?p stat = (st3, dsc)"
        by fastforce
      have flag: "has_flag dsc SEARCH_STOPATFIRST = has_flag ds SEARCH_STOPATFIRST"
        using c by (rule copy_search_result_cases) (simp_all add: has_flag_def)
      show ?thesis
      proof (cases "st3 = 0")
        case False
        with assms l st1 g st2 c have "fl = Exit" "ds' = dsc\<lparr>ds_status := st3\<rparr>"
          by (simp_all add: report_match_def Let_def)
        with c False show ?thesis by (rule copy)
      next
        case True
        with assms l st1 g st2 c flag
        have "fl = (if has_flag ds SEARCH_STOPATFIRST then Exit else Continue)"
          "ds' = dsc\<lparr>ds_status := 0, ds_results := ds_results dsc + 1\<rparr>"
          by (auto simp: report_match_def Let_def split: if_splits)
        with c [unfolded True] show ?thesis by (rule reported)
      qed
    qed
  qed
qed

lemma copy_search_result_trace:
  "copy_search_result v ds p stat = (st, ds') \<Longrightarrow>
     ds_trace ds' = ds_trace ds @ [Copy_result (result_string v ds p stat) st]"
  by (erule copy_search_result_cases) simp_all

lemma report_match_trace:
  assumes "report_match v fp entry ds = (fl, ds')"
  shows "\<exists>evs. ds_trace ds' = ds_trace ds @ evs \<and> (\<forall>e \<in> set evs. \<exists>r c. e = Copy_result r c)"
  using assms
  by (rule report_match_cases) (auto dest!: copy_search_result_trace)

lemma report_match_path:
  assumes "report_match v fp entry ds = (fl, ds')"
  shows "ds_path ds' = ds_path ds \<and> ds_isrecursive ds' = ds_isrecursive ds"
  using assms
  by (rule report_match_cases) (auto elim!: copy_search_result_cases)

lemma enter_directory_trace:
  "enter_directory v ds n = Inl (st, ds') \<Longrightarrow> extends_trace n ds ds'"
  "enter_directory v ds n = Inr (fp, ds3) \<Longrightarrow> extends_trace n ds ds3"
  by (auto simp: extends_trace_def enter_directory_def Let_def
           split: if_splits sum.splits prod.splits)

lemma native_search_trace:
  "native_search fp ds = Some (b, ds') \<Longrightarrow> ds_trace ds' = ds_trace ds"
  by (auto simp: native_search_def Let_def split: option.splits if_splits prod.splits)

lemma search_directory_trace:
  assumes "search_directory v ds n = Some (st, ds')"
  shows "extends_trace n ds ds'"
proof (rule search_directory_rule
    [where Pre = "\<lambda>n ds. True" and Run = extends_trace and Out = extends_trace
       and Post = "\<lambda>n ds st. extends_trace n ds" and v = v, OF _ _ _ _ _ _ _ _ _ _ assms])
  show "extends_trace n ds ds'" if "enter_directory v ds n = Inl (st, ds')"
    for n ds st ds' using that by (rule enter_directory_trace)
  show "extends_trace n ds ds3" if "enter_directory v ds n = Inr (fp, ds3)"
    for n ds fp ds3 using that by (rule enter_directory_trace)
  show "extends_trace n ds (if b then ds4 else log_event (Close n) ds4)"
    if "enter_directory v ds n = Inr (fp, ds3)" "native_search fp ds3 = Some (b, ds4)"
    for n ds fp ds3 b ds4
    using that
    by (auto simp: extends_trace_def dest!: enter_directory_trace(2) native_search_trace)
  show "extends_trace n ds (cur\<lparr>ds_path := p\<rparr>)" if "extends_trace n ds cur"
    for n ds and cur :: dir_search and p
    using that by (simp add: extends_trace_def)
  show "case fl of Continue \<Rightarrow> extends_trace n ds cur' | Exit \<Rightarrow> extends_trace n ds cur'"
    if "extends_trace n ds cur" "report_match v fp entry cur = (fl, cur')"
    for n ds fp cur entry fl cur'
    using that by (cases fl) (auto simp: extends_trace_def dest!: report_match_trace)
  show "extends_trace n ds (cur\<lparr>ds_status := 0\<rparr>) \<and> extends_trace n ds (cur\<lparr>ds_status := st\<rparr>)"
    if "extends_trace n ds cur" for n ds and cur :: dir_search and st
    using that by (simp add: extends_trace_def)
  show "if st \<noteq> 0 \<or> 0 < ds_results cur' \<and> has_flag cur' SEARCH_STOPATFIRST
        then extends_trace n ds (cur'\<lparr>ds_status := st\<rparr>)
        else extends_trace n ds (cur'\<lparr>ds_status := st\<rparr>)"
    if "extends_trace n ds cur" "extends_trace (Suc n) cur cur'"
    for n ds cur st and cur' :: dir_search
    using that by (auto simp: extends_trace_def)
  show "extends_trace n ds (log_event (Close n) cur)" if "extends_trace n ds cur"
    for n ds cur
    using that by (auto simp: extends_trace_def)
qed simp_all


text \<open>
  C4, as stated, fails: entries whose outcome is \<open>Failure\<close> are recursed into when the
  search is unanchored. With the pattern \<open>a\<close> under \<open>/r\<close>, the directory \<open>sub\<close> is
  classified \<open>Failure\<close> (the candidate is \<open>/sub\<close>), and \<open>search_directory\<close> is entered
  at depth 1 with the path \<open>/r/sub\<close>.
\<close>

theorem failure_entry_recursed_counterexample:
  "match_pathname ''/sub'' ''a'' = Some SEARCH_MATCH_FAILURE
   \<and> isrecursive ''a''
   \<and> Walk 1 ''/r/sub'' \<in> set (run_trace (sys_search plain_vfs ''/r'' ''a'' 0 demo_mem 100))"
  by (simp add: walker_eval demo_defs)

text \<open>
  C4, amended. For every entry processed at depth \<open>n\<close>, \<open>search_directory\<close> is called at
  depth \<open>n+1\<close> on the entry's path exactly when the entry is a directory other than \<open>.\<close>
  and \<open>..\<close> and either its outcome is \<open>Partial\<close> or the search is unanchored, whatever
  the outcome (\<open>Failure\<close> and \<open>Overflow\<close> included), unless the entry was reported as a
  \<open>Success\<close> and the report left the loop (an error, or \<open>STOP_AT_FIRST\<close>).
\<close>

theorem descent_condition:
  assumes run: "search_entry v (\<lambda>d. search_directory v d (n + 1)) fp dir (t, entry) ds = Some (fl, ds')"
    and how: "match_pathname (drop (ds_base ds) (ds_path ds @ ''/'' @ entry)) (ds_pattern ds) = Some how"
  shows "Walk (n + 1) (ds_path ds @ ''/'' @ entry) \<in> set (drop (length (ds_trace ds)) (ds_trace ds'))
     \<longleftrightarrow> (t = CHR ''d'' \<and> entry \<noteq> ''.'' \<and> entry \<noteq> ''..''
          \<and> (how = SEARCH_MATCH_PARTIAL \<or> ds_isrecursive ds)
          \<and> \<not> (how = SEARCH_MATCH_SUCCESS
               \<and> fst (report_match v fp entry (ds\<lparr>ds_path := ds_path ds @ ''/'' @ entry\<rparr>)) = Exit))"
proof -
  let ?ds1 = "ds\<lparr>ds_path := ds_path ds @ ''/'' @ entry\<rparr>"
  let ?W = "Walk (n + 1) (ds_path ds @ ''/'' @ entry)"
  from run obtain how' fl2 ds2 where
    how': "match_pathname (drop (ds_base ds) (ds_path ds @ ''/'' @ entry)) (ds_pattern ds) = Some how'"
    and r: "(if how' = SEARCH_MATCH_SUCCESS then report_match v fp entry ?ds1
             else (Continue, ?ds1)) = (fl2, ds2)"
    and d: "(case fl2 of Exit \<Rightarrow> Some (Exit, ds2)
             | Continue \<Rightarrow> descend_entry (\<lambda>d. search_directory v d (n + 1)) dir t entry how' ds2)
            = Some (fl, ds')"
    by (rule search_entry_SomeE)
  from how how' have [simp]: "how' = how" by simp
  have frame: "\<exists>evs. ds_trace ds2 = ds_trace ds @ evs \<and> (\<forall>e \<in> set evs. \<exists>r c. e = Copy_result r c)"
    "ds_path ds2 = ds_path ds @ ''/'' @ entry" "ds_isrecursive ds2 = ds_isrecursive ds"
    using r report_match_trace [of v fp entry ?ds1 fl2 ds2] report_match_path [of v fp entry ?ds1 fl2 ds2]
    by (auto split: if_splits)
  then obtain evs where evs: "ds_trace ds2 = ds_trace ds @ evs" "?W \<notin> set evs" by auto
  show ?thesis
  proof (cases fl2)
    case Exit
    with r have "how = SEARCH_MATCH_SUCCESS" "fst (report_match v fp entry ?ds1) = Exit"
      by (auto split: if_splits)
    moreover from d Exit have "ds' = ds2" by simp
    ultimately show ?thesis using evs by simp
  next
    case Continue
    with r have nx: "\<not> (how = SEARCH_MATCH_SUCCESS \<and> fst (report_match v fp entry ?ds1) = Exit)"
      by (auto split: if_splits)
    from d Continue
    have de: "descend_entry (\<lambda>d. search_directory v d (n + 1)) dir t entry how ds2 = Some (fl, ds')"
      by simp
    show ?thesis
    proof (cases "t = CHR ''d'' \<and> entry \<noteq> ''.'' \<and> entry \<noteq> ''..''
                  \<and> (how = SEARCH_MATCH_PARTIAL \<or> ds_isrecursive ds)")
      case False
      with de frame(3) have "ds_trace ds' = ds_trace ds2"
        by (auto simp: descend_entry_def)
      with evs False show ?thesis by auto
    next
      case True
      with de frame(3) obtain st ds3 where
        sd: "search_directory v ds2 (n + 1) = Some (st, ds3)" and tr: "ds_trace ds' = ds_trace ds3"
        by (auto simp: descend_entry_def Let_def split: option.splits if_splits)
      from search_directory_trace [OF sd] frame(2) evs(1) tr
      have "\<exists>more. ds_trace ds' = ds_trace ds @ evs @ ?W # more"
        by (auto simp: extends_trace_def)
      then have "?W \<in> set (drop (length (ds_trace ds)) (ds_trace ds'))" by auto
      with True nx show ?thesis by simp
    qed
  qed
qed


theorem descent_condition_witness:
  "match_pathname (drop (ds_base demo_state) (ds_path demo_state @ ''/'' @ ''sub''))
      (ds_pattern demo_state) = Some SEARCH_MATCH_FAILURE
   \<and> (case search_entry plain_vfs (\<lambda>d. search_directory plain_vfs d (0 + 1)) demo_root 2
              (CHR ''d'', ''sub'') demo_state of
         None \<Rightarrow> False
       | Some x \<Rightarrow> Walk (0 + 1) (ds_path demo_state @ ''/'' @ ''sub'')
                     \<in> set (drop (length (ds_trace demo_state)) (ds_trace (snd x))))"
proof -
  have how: "match_pathname (drop (ds_base demo_state) (ds_path demo_state @ ''/'' @ ''sub''))
      (ds_pattern demo_state) = Some SEARCH_MATCH_FAILURE"
    by (simp add: walker_eval demo_defs demo_state_def)
  obtain fl ds' where
    run: "search_entry plain_vfs (\<lambda>d. search_directory plain_vfs d (0 + 1)) demo_root 2
              (CHR ''d'', ''sub'') demo_state = Some (fl, ds')"
    by (simp add: walker_eval demo_defs demo_state_def)
  have "ds_isrecursive demo_state" by (simp add: demo_state_def)
  with descent_condition [OF run how]
  have "Walk (0 + 1) (ds_path demo_state @ ''/'' @ ''sub'')
          \<in> set (drop (length (ds_trace demo_state)) (ds_trace ds'))"
    by simp
  with how run show ?thesis by simp
qed

section \<open>A proof rule for the loop over the roots, and the ways through the system call\<close>

lemma roots_loop_rule:
  fixes Loop Done :: "dir_search \<Rightarrow> bool" and Fail :: "int \<Rightarrow> dir_search \<Rightarrow> bool"
  assumes walk: "\<And>ds c st ds'. Loop ds \<Longrightarrow>
        search_directory v (ds\<lparr>ds_path := c, ds_base := 0\<rparr>) 0 = Some (st, ds') \<Longrightarrow>
        (if st \<noteq> 0 then Fail st ds'
         else if ds_results ds' > 0 \<and> has_flag ds' SEARCH_STOPATFIRST then Done ds'
         else Loop ds')"
    and literal: "\<And>ds c rf ds'. Loop ds \<Longrightarrow>
        search_literal v (ds\<lparr>ds_path := c\<rparr>) = Some (rf, ds') \<Longrightarrow>
        (case rf of Abort st \<Rightarrow> Fail st ds' | Stop_roots \<Rightarrow> Done ds' | Next_root \<Rightarrow> Loop ds')"
    and fin: "\<And>ds. Loop ds \<Longrightarrow> Done ds"
  shows "Loop ds \<Longrightarrow> roots_loop v ispat roots ds = Some (le, ds') \<Longrightarrow>
         (case le of Finished \<Rightarrow> Done ds' | Failed st \<Rightarrow> Fail st ds')"
proof (induction roots arbitrary: ds)
  case Nil
  then show ?case by (simp add: fin)
next
  case (Cons c cs)
  from Cons.prems(2) have fits: "\<not> PATH_MAX < length c"
    by (auto split: if_splits)
  show ?case
  proof (cases ispat)
    case True
    with Cons.prems(2) fits obtain st ds2 where
      sd: "search_directory v (ds\<lparr>ds_path := c, ds_base := 0\<rparr>) 0 = Some (st, ds2)"
      by (auto simp: Let_def split: option.splits)
    note post = walk [OF Cons.prems(1) sd]
    show ?thesis
    proof (cases "st \<noteq> 0")
      case st: True
      with Cons.prems(2) fits True sd have "le = Failed st" "ds' = ds2"
        by (simp_all add: Let_def)
      with post st show ?thesis by simp
    next
      case st: False
      show ?thesis
      proof (cases "ds_results ds2 > 0 \<and> has_flag ds2 SEARCH_STOPATFIRST")
        case stop: True
        with Cons.prems(2) fits True sd st have "le = Finished" "ds' = ds2"
          by (simp_all add: Let_def)
        with post st stop show ?thesis by simp
      next
        case stop: False
        with Cons.prems(2) fits True sd st
        have "roots_loop v ispat cs ds2 = Some (le, ds')"
          by (auto simp: Let_def)
        moreover from post st stop have "Loop ds2" by auto
        ultimately show ?thesis using Cons.IH by blast
      qed
    qed
  next
    case False
    with Cons.prems(2) fits obtain rf ds2 where
      sl: "search_literal v (ds\<lparr>ds_path := c\<rparr>) = Some (rf, ds2)"
      by (auto simp: Let_def split: option.splits)
    note post = literal [OF Cons.prems(1) sl]
    show ?thesis
    proof (cases rf)
      case Next_root
      with Cons.prems(2) fits False sl
      have "roots_loop v ispat cs ds2 = Some (le, ds')"
        by (simp add: Let_def)
      moreover from post Next_root have "Loop ds2" by simp
      ultimately show ?thesis using Cons.IH by blast
    next
      case Stop_roots
      with Cons.prems(2) fits False sl have "le = Finished" "ds' = ds2"
        by (simp_all add: Let_def)
      with post Stop_roots show ?thesis by simp
    next
      case (Abort st)
      with Cons.prems(2) fits False sl have "le = Failed st" "ds' = ds2"
        by (simp_all add: Let_def)
      with post Abort show ?thesis by simp
    qed
  qed
qed

text \<open>The ways through the system call.\<close>

lemma sys_search_run:
  assumes "sys_search v paths pattern flags buf len = Some (r, s)"
  shows "(\<exists>e kp. r = Inl e \<and> s = init_search kp flags buf len)
       \<or> (\<exists>ispat roots kp pat' le ds3.
             roots_loop v ispat roots ((init_search kp flags buf len)\<lparr>ds_pattern := pat'\<rparr>)
               = Some (le, ds3)
             \<and> (case le of Failed st \<Rightarrow> r = Inl st \<and> s = ds3
                 | Finished \<Rightarrow> (r, s) = finish_search v ds3))"
proof (cases "access_ok v len \<and> kmalloc_ds v")
  case False
  with assms show ?thesis by (auto simp: sys_search_def split: if_splits)
next
  case ok: True
  show ?thesis
  proof (cases "getname v paths")
    case (Inl e)
    with assms ok show ?thesis by (auto simp: sys_search_def)
  next
    case kpaths: (Inr kpaths)
    show ?thesis
    proof (cases "getname v pattern")
      case (Inl e)
      with assms ok kpaths show ?thesis by (auto simp: sys_search_def)
    next
      case kp: (Inr kp)
      show ?thesis
      proof (cases "ispattern kp \<and> \<not> kmalloc_dirs v")
        case True
        with assms ok kpaths kp show ?thesis by (auto simp: sys_search_def Let_def)
      next
        case False
        let ?pat = "if ispattern kp then kp else dropWhile (\<lambda>c. c = CHR ''/'') kp"
        let ?ds2 = "(init_search kp flags buf len)\<lparr>ds_pattern := ?pat\<rparr>"
        have ds2: "(if ispattern kp then init_search kp flags buf len
                    else (init_search kp flags buf len)\<lparr>ds_pattern :=
                           dropWhile (\<lambda>c. c = CHR ''/'') kp\<rparr>) = ?ds2"
          by (simp add: init_search_def)
        from assms ok kpaths kp False
        have run: "(case roots_loop v (ispattern kp) (strsep_all kpaths) ?ds2 of
                       None \<Rightarrow> None
                     | Some (Failed status, ds3) \<Rightarrow> Some (Inl status, ds3)
                     | Some (Finished, ds3) \<Rightarrow> Some (finish_search v ds3)) = Some (r, s)"
          unfolding sys_search_def Let_def
          by (simp add: init_search_def split: if_splits)
        then obtain le ds3 where
          rl: "roots_loop v (ispattern kp) (strsep_all kpaths) ?ds2 = Some (le, ds3)"
          by (cases "roots_loop v (ispattern kp) (strsep_all kpaths) ?ds2")
             (auto simp: init_search_def)
        with run have "case le of Failed st \<Rightarrow> r = Inl st \<and> s = ds3
                 | Finished \<Rightarrow> (r, s) = finish_search v ds3"
          by (cases le) (auto simp: init_search_def)
        with rl show ?thesis by blast
      qed
    qed
  qed
qed


section \<open>Errors that end the search\<close>

lemma clean_simps [simp]:
  "clean (ds\<lparr>ds_status := a\<rparr>) = clean ds"
  "clean (ds\<lparr>ds_results := b\<rparr>) = clean ds"
  "clean (ds\<lparr>ds_path := c\<rparr>) = clean ds"
  "clean (ds\<lparr>ds_base := d\<rparr>) = clean ds"
  "clean (ds\<lparr>ds_umem := e\<rparr>) = clean ds"
  "clean (ds\<lparr>ds_next := g\<rparr>) = clean ds"
  "clean (ds\<lparr>ds_len := h\<rparr>) = clean ds"
  "clean (log_event ev ds) = (clean ds \<and> fatal ev = None)"
  by (auto simp: clean_def)

lemma failed_simps [simp]:
  "failed x (ds\<lparr>ds_status := a\<rparr>) = failed x ds"
  "failed x (ds\<lparr>ds_results := b\<rparr>) = failed x ds"
  "failed x (ds\<lparr>ds_path := c\<rparr>) = failed x ds"
  "failed x (ds\<lparr>ds_base := d\<rparr>) = failed x ds"
  "failed x (ds\<lparr>ds_umem := e\<rparr>) = failed x ds"
  "failed x (ds\<lparr>ds_next := g\<rparr>) = failed x ds"
  "failed x (ds\<lparr>ds_len := h\<rparr>) = failed x ds"
  "failed x (log_event ev ds) = (failed x ds \<and> (\<forall>c'. fatal ev = Some c' \<longrightarrow> c' = x))"
  by (auto simp: failed_def)

lemma clean_failed: "clean ds \<Longrightarrow> c \<noteq> 0 \<Longrightarrow> failed c ds"
  by (simp add: clean_def failed_def)

lemma enter_directory_fatal:
  assumes "clean ds"
  shows "enter_directory v ds n = Inl (st, ds') \<Longrightarrow> clean ds' \<or> failed st ds'"
    and "enter_directory v ds n = Inr (fp, ds3) \<Longrightarrow> clean ds3"
  using assms
  by (auto simp: enter_directory_def Let_def clean_failed
           split: if_splits sum.splits prod.splits)

lemma native_search_fatal:
  "native_search fp ds = Some (b, ds') \<Longrightarrow> clean ds \<Longrightarrow> clean ds'"
  by (auto simp: native_search_def Let_def split: option.splits if_splits prod.splits)

lemma copy_search_result_fatal:
  assumes "copy_search_result v ds p stat = (st, ds')" "clean ds"
  shows "if st = 0 then clean ds' else failed st ds'"
  using assms
  by (auto elim!: copy_search_result_cases simp: clean_failed errno_defs)

lemma report_match_fatal:
  assumes "report_match v fp entry ds = (fl, ds')" "clean ds"
  shows "case fl of Continue \<Rightarrow> clean ds' | Exit \<Rightarrow> clean ds' \<or> failed (ds_status ds') ds'"
  using assms(1)
proof (cases rule: report_match_cases)
  case (lookup st)
  with assms(2) show ?thesis by simp
next
  case (copy p stat st dsc)
  with copy_search_result_fatal [OF copy(1)] assms(2) show ?thesis by simp
next
  case (reported p stat dsc)
  with copy_search_result_fatal [OF reported(1)] assms(2) show ?thesis by simp
qed

lemma search_directory_fatal:
  assumes "search_directory v ds n = Some (st, ds')" "clean ds"
  shows "clean ds' \<or> failed st ds'"
proof (rule search_directory_rule
    [where Pre = "\<lambda>n. clean" and Run = "\<lambda>n ds. clean"
       and Out = "\<lambda>n ds cur. clean cur \<or> failed (ds_status cur) cur"
       and Post = "\<lambda>n ds st ds'. clean ds' \<or> failed st ds'" and v = v,
     OF _ _ _ _ _ _ _ _ _ assms(2,1)])
  show "clean ds' \<or> failed st ds'" if "clean ds" "enter_directory v ds n = Inl (st, ds')"
    for n ds st ds' using that enter_directory_fatal(1) by blast
  show "clean ds3" if "clean ds" "enter_directory v ds n = Inr (fp, ds3)"
    for n ds fp ds3 using that enter_directory_fatal(2) by blast
  show "clean (if b then ds4 else log_event (Close n) ds4)
        \<or> failed (ds_status ds4) (if b then ds4 else log_event (Close n) ds4)"
    if "clean ds" "enter_directory v ds n = Inr (fp, ds3)" "native_search fp ds3 = Some (b, ds4)"
    for n ds fp ds3 b ds4
    using that enter_directory_fatal(2) [of ds v n fp ds3] native_search_fatal [of fp ds3 b ds4]
    by auto
  show "clean (cur\<lparr>ds_path := p\<rparr>)" if "clean cur" for cur :: dir_search and p
    using that by simp
  show "case fl of Continue \<Rightarrow> clean cur' | Exit \<Rightarrow> clean cur' \<or> failed (ds_status cur') cur'"
    if "clean cur" "report_match v fp entry cur = (fl, cur')" for fp cur entry fl cur'
    using that report_match_fatal by blast
  show "clean (cur\<lparr>ds_status := 0\<rparr>)
        \<and> (clean (cur\<lparr>ds_status := st\<rparr>)
            \<or> failed (ds_status (cur\<lparr>ds_status := st\<rparr>)) (cur\<lparr>ds_status := st\<rparr>))"
    if "clean cur" for cur :: dir_search and st
    using that by simp
  show "clean cur" if "clean cur" for cur :: dir_search by fact
  show "if st \<noteq> 0 \<or> 0 < ds_results cur' \<and> has_flag cur' SEARCH_STOPATFIRST
        then clean (cur'\<lparr>ds_status := st\<rparr>)
             \<or> failed (ds_status (cur'\<lparr>ds_status := st\<rparr>)) (cur'\<lparr>ds_status := st\<rparr>)
        else clean (cur'\<lparr>ds_status := st\<rparr>)"
    if "clean cur' \<or> failed st cur'" for st and cur' :: dir_search
    using that by (auto simp: failed_def)
  show "clean (log_event (Close n) cur) \<or> failed (ds_status cur) (log_event (Close n) cur)"
    if "clean cur \<or> failed (ds_status cur) cur" for n cur
    using that by auto
qed


lemma search_literal_fatal:
  assumes "search_literal v ds = Some (rf, ds')" "clean ds"
  shows "case rf of Abort st \<Rightarrow> clean ds' \<or> failed st ds' | Stop_roots \<Rightarrow> clean ds'
         | Next_root \<Rightarrow> clean ds'"
  using assms unfolding search_literal_def Let_def
  by (auto split: if_splits prod.splits dest!: copy_search_result_fatal simp: clean_failed)

lemma roots_loop_fatal:
  assumes "roots_loop v ispat roots ds = Some (le, ds')" "clean ds"
  shows "case le of Finished \<Rightarrow> clean ds' | Failed st \<Rightarrow> clean ds' \<or> failed st ds'"
proof (rule roots_loop_rule
    [where Loop = clean and Done = clean and Fail = "\<lambda>st ds'. clean ds' \<or> failed st ds'"
       and v = v, OF _ _ _ assms(2,1)])
  show "if st \<noteq> 0 then clean ds' \<or> failed st ds'
        else if 0 < ds_results ds' \<and> has_flag ds' SEARCH_STOPATFIRST then clean ds'
        else clean ds'"
    if "clean ds" "search_directory v (ds\<lparr>ds_path := c, ds_base := 0\<rparr>) 0 = Some (st, ds')"
    for ds c st ds'
    using search_directory_fatal [OF that(2)] that(1) by (auto simp: failed_def)
  show "case rf of Abort st \<Rightarrow> clean ds' \<or> failed st ds' | Stop_roots \<Rightarrow> clean ds'
        | Next_root \<Rightarrow> clean ds'"
    if "clean ds" "search_literal v (ds\<lparr>ds_path := c\<rparr>) = Some (rf, ds')" for ds c rf ds'
    using search_literal_fatal [OF that(2)] that(1) by simp
qed

lemma sys_search_fatal:
  assumes run: "sys_search v paths pattern flags buf len = Some (r, s)"
    and ev: "ev \<in> set (ds_trace s)" and fatal: "fatal ev = Some c"
  shows "r = Inl c"
proof -
  from ev fatal have nc: "\<not> clean s" by (auto simp: clean_def)
  from sys_search_run [OF run] show ?thesis
  proof (elim disjE exE conjE)
    fix e kp assume "s = init_search kp flags buf len"
    with ev show ?thesis by (simp add: init_search_def)
  next
    fix ispat roots kp pat' le ds3
    assume rl: "roots_loop v ispat roots ((init_search kp flags buf len)\<lparr>ds_pattern := pat'\<rparr>)
                  = Some (le, ds3)"
      and res: "case le of Failed st \<Rightarrow> r = Inl st \<and> s = ds3
                | Finished \<Rightarrow> (r, s) = finish_search v ds3"
    have "clean ((init_search kp flags buf len)\<lparr>ds_pattern := pat'\<rparr>)"
      by (simp add: clean_def init_search_def)
    note post = roots_loop_fatal [OF rl this]
    show ?thesis
    proof (cases le)
      case Finished
      with res have "ds_trace s = ds_trace ds3"
        by (auto simp: finish_search_def split: if_splits prod.splits)
      with post Finished nc show ?thesis by (simp add: clean_def)
    next
      case (Failed st)
      with res post nc ev fatal show ?thesis by (auto simp: failed_def)
    qed
  qed
qed

text \<open>
  C3. When the record and its two terminators do not fit in the remaining capacity,
  \<open>copy_search_result\<close> returns \<open>-ERANGE\<close> and leaves the state as it was (only the trace
  records the call), so nothing is written; and a call during which this happened
  returns \<open>-ERANGE\<close> through an exit label, not a match count.
\<close>

theorem buffer_exhaustion_is_fatal:
  "(ds_len ds < length (result_string v ds p stat) + 2 \<longrightarrow>
      copy_search_result v ds p stat =
        (- ERANGE, log_event (Copy_result (result_string v ds p stat) (- ERANGE)) ds))
   \<and> (sys_search v paths pattern flags buf len = Some (r, s) \<longrightarrow>
      Copy_result rcd (- ERANGE) \<in> set (ds_trace s) \<longrightarrow> r = Inl (- ERANGE))"
proof -
  have "r = Inl (- ERANGE)"
    if "sys_search v paths pattern flags buf len = Some (r, s)"
      "Copy_result rcd (- ERANGE) \<in> set (ds_trace s)"
    using that by (rule sys_search_fatal) (simp add: ERANGE_def)
  then show ?thesis by (simp add: copy_search_result_def Let_def)
qed

theorem buffer_exhaustion_is_fatal_witness:
  "ds_len (demo_state\<lparr>ds_len := 3\<rparr>)
      < length (result_string plain_vfs (demo_state\<lparr>ds_len := 3\<rparr>) ''a'' zero_kstat) + 2
   \<and> copy_search_result plain_vfs (demo_state\<lparr>ds_len := 3\<rparr>) ''a'' zero_kstat =
        (- ERANGE, log_event (Copy_result ''0|a||'' (- ERANGE)) (demo_state\<lparr>ds_len := 3\<rparr>))
   \<and> Copy_result ''0|a||'' (- ERANGE)
        \<in> set (run_trace (sys_search plain_vfs ''/r'' ''a'' 0 demo_mem 3))
   \<and> run_outcome (sys_search plain_vfs ''/r'' ''a'' 0 demo_mem 3) = Some (Inl (- ERANGE))"
proof -
  let ?ds = "demo_state\<lparr>ds_len := 3\<rparr>"
  have small: "ds_len ?ds < length (result_string plain_vfs ?ds ''a'' zero_kstat) + 2"
    by (simp add: walker_eval demo_defs demo_state_def)
  have rs: "result_string plain_vfs ?ds ''a'' zero_kstat = ''0|a||''"
    by (simp add: walker_eval demo_defs demo_state_def)
  obtain r s where
    run: "sys_search plain_vfs ''/r'' ''a'' 0 demo_mem 3 = Some (r, s)" and
    ev: "Copy_result ''0|a||'' (- ERANGE) \<in> set (ds_trace s)"
    by (simp add: walker_eval demo_defs)
  note inst = buffer_exhaustion_is_fatal
    [of ?ds plain_vfs "''a''" zero_kstat "''/r''" "''a''" 0 demo_mem 3 r s "''0|a||''"]
  from inst small have "copy_search_result plain_vfs ?ds ''a'' zero_kstat =
        (- ERANGE, log_event (Copy_result (result_string plain_vfs ?ds ''a'' zero_kstat) (- ERANGE)) ?ds)"
    by blast
  moreover from inst run ev have "r = Inl (- ERANGE)" by blast
  ultimately show ?thesis using small run ev rs
    by (simp add: run_trace_def run_outcome_def)
qed


section \<open>Failures of \<open>filp_open\<close>\<close>

lemma search_directory_open_failed:
  assumes "n < TREE_DEPTH" "filp_open v (ds_path ds) = Inl e"
  shows "search_directory v ds n =
     Some (if e = - ENOENT \<or> e = - EPERM \<or> e = - EACCES \<or> e = - ENODEV then 0 else e,
           log_event (Open_failed n (ds_path ds) e)
             ((log_event (Walk n (ds_path ds)) ds)\<lparr>ds_status := e\<rparr>))"
  using assms
  by (subst search_directory.simps) (simp add: enter_directory_def Let_def)

text \<open>
  After a directory entry whose open fails with one of the four errors, the loop over
  the entries of the parent goes on with the entries that follow, from the state in which
  only the status, the trace and the restored path differ; when the loop over the entries
  of one call of \<open>vfs_readdir\<close> reaches its end, the entries of the next call follow; and
  when the walk of a root returns 0 the loop over the roots goes on with the roots that
  follow.
\<close>

lemma entry_loop_after_failed_open:
  assumes n: "n < TREE_DEPTH"
    and fits: "length (ds_path ds0) + 1 + length entry \<le> PATH_MAX"
    and base: "ds_base ds0 \<le> length (ds_path ds0) + 1 + length entry"
    and how: "match_pathname (drop (ds_base ds0) (ds_path ds0 @ ''/'' @ entry)) (ds_pattern ds0)
                = Some how"
    and rep: "(if how = SEARCH_MATCH_SUCCESS
               then report_match v fp entry (ds0\<lparr>ds_path := ds_path ds0 @ ''/'' @ entry\<rparr>)
               else (Continue, ds0\<lparr>ds_path := ds_path ds0 @ ''/'' @ entry\<rparr>)) = (Continue, ds)"
    and op: "filp_open v (ds_path ds) = Inl e"
    and rec: "e = - ENOENT \<or> e = - EPERM \<or> e = - EACCES \<or> e = - ENODEV"
    and dir: "entry \<noteq> ''.'' \<and> entry \<noteq> ''..''
        \<and> (how = SEARCH_MATCH_PARTIAL \<or> ds_isrecursive ds)"
    and stop: "\<not> (0 < ds_results ds \<and> has_flag ds SEARCH_STOPATFIRST)"
  shows "entry_loop v (\<lambda>d. search_directory v d n) fp dir ((CHR ''d'', entry) # es) ds0 =
         entry_loop v (\<lambda>d. search_directory v d n) fp dir es
           ((log_event (Open_failed n (ds_path ds) e) (log_event (Walk n (ds_path ds)) ds))
              \<lparr>ds_status := 0, ds_path := take dir (ds_path ds)\<rparr>)"
proof -
  from rec search_directory_open_failed [OF n op]
  have sd: "search_directory v ds n =
     Some (0, log_event (Open_failed n (ds_path ds) e)
             ((log_event (Walk n (ds_path ds)) ds)\<lparr>ds_status := e\<rparr>))"
    by simp
  with dir stop
  have de: "descend_entry (\<lambda>d. search_directory v d n) dir (CHR ''d'') entry how ds =
        Some (Continue,
              (log_event (Open_failed n (ds_path ds) e) (log_event (Walk n (ds_path ds)) ds))
                \<lparr>ds_status := 0, ds_path := take dir (ds_path ds)\<rparr>)"
    by (simp add: descend_entry_def Let_def log_event_def)
  let ?ds1 = "ds0\<lparr>ds_path := ds_path ds0 @ ''/'' @ entry\<rparr>"
  from fits base have pre: "\<not> length (ds_path ds0) + 1 + length entry > PATH_MAX"
    "\<not> ds_base ?ds1 > length (ds_path ?ds1)"
    by simp_all
  from how have how': "match_pathname (drop (ds_base ?ds1) (ds_path ?ds1)) (ds_pattern ?ds1) = Some how"
    by simp
  from rep de
  have "(case (if how = SEARCH_MATCH_SUCCESS then report_match v fp entry ?ds1
               else (Continue, ?ds1)) of
           (Exit, ds2) \<Rightarrow> Some (Exit, ds2)
         | (Continue, ds2) \<Rightarrow>
             descend_entry (\<lambda>d. search_directory v d n) dir (CHR ''d'') entry how ds2) =
        Some (Continue,
              (log_event (Open_failed n (ds_path ds) e) (log_event (Walk n (ds_path ds)) ds))
                \<lparr>ds_status := 0, ds_path := take dir (ds_path ds)\<rparr>)"
    by (simp only: rep prod.case flow.case)
  with pre how'
  have "search_entry v (\<lambda>d. search_directory v d n) fp dir (CHR ''d'', entry) ds0 =
        Some (Continue,
              (log_event (Open_failed n (ds_path ds) e) (log_event (Walk n (ds_path ds)) ds))
                \<lparr>ds_status := 0, ds_path := take dir (ds_path ds)\<rparr>)"
    unfolding search_entry_def Let_def prod.case by (simp only: if_False option.case)
  then show ?thesis by simp
qed

lemma roots_loop_after_walk:
  assumes "length root \<le> PATH_MAX"
    and "search_directory v (ds\<lparr>ds_path := root, ds_base := 0\<rparr>) 0 = Some (0, ds'')"
    and "\<not> (0 < ds_results ds'' \<and> has_flag ds'' SEARCH_STOPATFIRST)"
  shows "roots_loop v True (root # rest) ds = roots_loop v True rest ds''"
  using assms by (auto simp: Let_def)


lemma readdir_loop_after_batch:
  assumes "snd (vfs_readdir offered (0, [])) \<noteq> []"
    and "entry_loop v descend fp (length (ds_path dsb)) (snd (vfs_readdir offered (0, [])))
           (dsb\<lparr>ds_status := 0\<rparr>) = Some (Continue, dsb')"
  shows "readdir_loop v descend fp ((0, offered) # batches) dsb
           = readdir_loop v descend fp batches dsb'"
  using assms by (simp add: Let_def)

lemmas skip_defs = skip_vfs_def demo_top_def top_state_def demo_state_def

text \<open>
  C7. When \<open>filp_open\<close> fails in \<open>search_directory\<close> below the depth limit, the walker
  returns 0 for \<open>ENOENT\<close>, \<open>EPERM\<close>, \<open>EACCES\<close> and \<open>ENODEV\<close> (not found, permission
  denied in its two error numbers, no such device) and the error otherwise; only the
  status and the trace change. After a skipped directory the body of the loop over the
  entries of the parent is left by \<open>Continue\<close>, and the loop goes on with the sibling
  entries that follow the skipped one, whatever they are; entries that were processed to
  the end are followed by the entries of the next call of \<open>vfs_readdir\<close>; a root whose
  walk returns 0, as the walk of a skipped directory does, is followed by the other roots,
  whatever they are.
  A call during which an open failed with any other error returns that error through an
  exit label.
\<close>

theorem open_failure_skip_or_abort:
  "(n < TREE_DEPTH \<longrightarrow> filp_open v (ds_path ds) = Inl e \<longrightarrow>
      search_directory v ds n =
        Some (if e = - ENOENT \<or> e = - EPERM \<or> e = - EACCES \<or> e = - ENODEV then 0 else e,
              log_event (Open_failed n (ds_path ds) e)
                ((log_event (Walk n (ds_path ds)) ds)\<lparr>ds_status := e\<rparr>)))
   \<and> (n < TREE_DEPTH \<longrightarrow> filp_open v (ds_path ds) = Inl e \<longrightarrow>
      (e = - ENOENT \<or> e = - EPERM \<or> e = - EACCES \<or> e = - ENODEV) \<longrightarrow>
      t = CHR ''d'' \<and> entry \<noteq> ''.'' \<and> entry \<noteq> ''..''
        \<and> (how = SEARCH_MATCH_PARTIAL \<or> ds_isrecursive ds) \<longrightarrow>
      \<not> (0 < ds_results ds \<and> has_flag ds SEARCH_STOPATFIRST) \<longrightarrow>
      descend_entry (\<lambda>d. search_directory v d n) dir t entry how ds =
        Some (Continue,
              (log_event (Open_failed n (ds_path ds) e) (log_event (Walk n (ds_path ds)) ds))
                \<lparr>ds_status := 0, ds_path := take dir (ds_path ds)\<rparr>))
   \<and> (n < TREE_DEPTH \<longrightarrow> filp_open v (ds_path ds) = Inl e \<longrightarrow>
      (e = - ENOENT \<or> e = - EPERM \<or> e = - EACCES \<or> e = - ENODEV) \<longrightarrow>
      t = CHR ''d'' \<and> entry \<noteq> ''.'' \<and> entry \<noteq> ''..''
        \<and> (how = SEARCH_MATCH_PARTIAL \<or> ds_isrecursive ds) \<longrightarrow>
      \<not> (0 < ds_results ds \<and> has_flag ds SEARCH_STOPATFIRST) \<longrightarrow>
      length (ds_path ds0) + 1 + length entry \<le> PATH_MAX \<longrightarrow>
      ds_base ds0 \<le> length (ds_path ds0) + 1 + length entry \<longrightarrow>
      match_pathname (drop (ds_base ds0) (ds_path ds0 @ ''/'' @ entry)) (ds_pattern ds0)
        = Some how \<longrightarrow>
      (if how = SEARCH_MATCH_SUCCESS
       then report_match v fp entry (ds0\<lparr>ds_path := ds_path ds0 @ ''/'' @ entry\<rparr>)
       else (Continue, ds0\<lparr>ds_path := ds_path ds0 @ ''/'' @ entry\<rparr>)) = (Continue, ds) \<longrightarrow>
      entry_loop v (\<lambda>d. search_directory v d n) fp dir ((t, entry) # es) ds0 =
        entry_loop v (\<lambda>d. search_directory v d n) fp dir es
          ((log_event (Open_failed n (ds_path ds) e) (log_event (Walk n (ds_path ds)) ds))
             \<lparr>ds_status := 0, ds_path := take dir (ds_path ds)\<rparr>))
   \<and> (snd (vfs_readdir offered (0, [])) \<noteq> [] \<longrightarrow>
      entry_loop v (\<lambda>d. search_directory v d n) fp (length (ds_path dsb))
          (snd (vfs_readdir offered (0, []))) (dsb\<lparr>ds_status := 0\<rparr>) = Some (Continue, dsb') \<longrightarrow>
      readdir_loop v (\<lambda>d. search_directory v d n) fp ((0, offered) # batches) dsb =
        readdir_loop v (\<lambda>d. search_directory v d n) fp batches dsb')
   \<and> (length root \<le> PATH_MAX \<longrightarrow>
      search_directory v (dsr\<lparr>ds_path := root, ds_base := 0\<rparr>) 0 = Some (0, dsr') \<longrightarrow>
      \<not> (0 < ds_results dsr' \<and> has_flag dsr' SEARCH_STOPATFIRST) \<longrightarrow>
      roots_loop v True (root # rest) dsr = roots_loop v True rest dsr')
   \<and> (sys_search v paths pattern flags buf len = Some (r, s) \<longrightarrow>
      Open_failed m p e' \<in> set (ds_trace s) \<longrightarrow>
      \<not> (e' = - ENOENT \<or> e' = - EPERM \<or> e' = - EACCES \<or> e' = - ENODEV) \<longrightarrow>
      e' \<noteq> 0 \<longrightarrow> r = Inl e')"
proof (intro conjI impI)
  assume "n < TREE_DEPTH" "filp_open v (ds_path ds) = Inl e"
  then show "search_directory v ds n =
        Some (if e = - ENOENT \<or> e = - EPERM \<or> e = - EACCES \<or> e = - ENODEV then 0 else e,
              log_event (Open_failed n (ds_path ds) e)
                ((log_event (Walk n (ds_path ds)) ds)\<lparr>ds_status := e\<rparr>))"
    by (rule search_directory_open_failed)
next
  assume a: "n < TREE_DEPTH" "filp_open v (ds_path ds) = Inl e"
    "e = - ENOENT \<or> e = - EPERM \<or> e = - EACCES \<or> e = - ENODEV"
    "t = CHR ''d'' \<and> entry \<noteq> ''.'' \<and> entry \<noteq> ''..''
        \<and> (how = SEARCH_MATCH_PARTIAL \<or> ds_isrecursive ds)"
    "\<not> (0 < ds_results ds \<and> has_flag ds SEARCH_STOPATFIRST)"
  from a(3) search_directory_open_failed [OF a(1,2)]
  have "search_directory v ds n =
     Some (0, log_event (Open_failed n (ds_path ds) e)
             ((log_event (Walk n (ds_path ds)) ds)\<lparr>ds_status := e\<rparr>))"
    by simp
  with a(4,5) show "descend_entry (\<lambda>d. search_directory v d n) dir t entry how ds =
        Some (Continue,
              (log_event (Open_failed n (ds_path ds) e) (log_event (Walk n (ds_path ds)) ds))
                \<lparr>ds_status := 0, ds_path := take dir (ds_path ds)\<rparr>)"
    by (simp add: descend_entry_def Let_def log_event_def)
next
  assume a: "n < TREE_DEPTH" "filp_open v (ds_path ds) = Inl e"
    "e = - ENOENT \<or> e = - EPERM \<or> e = - EACCES \<or> e = - ENODEV"
    "t = CHR ''d'' \<and> entry \<noteq> ''.'' \<and> entry \<noteq> ''..''
        \<and> (how = SEARCH_MATCH_PARTIAL \<or> ds_isrecursive ds)"
    "\<not> (0 < ds_results ds \<and> has_flag ds SEARCH_STOPATFIRST)"
    "length (ds_path ds0) + 1 + length entry \<le> PATH_MAX"
    "ds_base ds0 \<le> length (ds_path ds0) + 1 + length entry"
    "match_pathname (drop (ds_base ds0) (ds_path ds0 @ ''/'' @ entry)) (ds_pattern ds0)
        = Some how"
    "(if how = SEARCH_MATCH_SUCCESS
       then report_match v fp entry (ds0\<lparr>ds_path := ds_path ds0 @ ''/'' @ entry\<rparr>)
       else (Continue, ds0\<lparr>ds_path := ds_path ds0 @ ''/'' @ entry\<rparr>)) = (Continue, ds)"
  from a(4) have t: "t = CHR ''d''"
    and d: "entry \<noteq> ''.'' \<and> entry \<noteq> ''..'' \<and> (how = SEARCH_MATCH_PARTIAL \<or> ds_isrecursive ds)"
    by simp_all
  show "entry_loop v (\<lambda>d. search_directory v d n) fp dir ((t, entry) # es) ds0 =
        entry_loop v (\<lambda>d. search_directory v d n) fp dir es
          ((log_event (Open_failed n (ds_path ds) e) (log_event (Walk n (ds_path ds)) ds))
             \<lparr>ds_status := 0, ds_path := take dir (ds_path ds)\<rparr>)"
    unfolding t by (rule entry_loop_after_failed_open [OF a(1) a(6-9) a(2,3) d a(5)])
next
  assume "snd (vfs_readdir offered (0, [])) \<noteq> []"
    "entry_loop v (\<lambda>d. search_directory v d n) fp (length (ds_path dsb))
          (snd (vfs_readdir offered (0, []))) (dsb\<lparr>ds_status := 0\<rparr>) = Some (Continue, dsb')"
  then show "readdir_loop v (\<lambda>d. search_directory v d n) fp ((0, offered) # batches) dsb =
        readdir_loop v (\<lambda>d. search_directory v d n) fp batches dsb'"
    by (rule readdir_loop_after_batch)
next
  assume "length root \<le> PATH_MAX"
    "search_directory v (dsr\<lparr>ds_path := root, ds_base := 0\<rparr>) 0 = Some (0, dsr')"
    "\<not> (0 < ds_results dsr' \<and> has_flag dsr' SEARCH_STOPATFIRST)"
  then show "roots_loop v True (root # rest) dsr = roots_loop v True rest dsr'"
    by (rule roots_loop_after_walk)
next
  assume "sys_search v paths pattern flags buf len = Some (r, s)"
    "Open_failed m p e' \<in> set (ds_trace s)"
    "\<not> (e' = - ENOENT \<or> e' = - EPERM \<or> e' = - EACCES \<or> e' = - ENODEV)" "e' \<noteq> 0"
  then show "r = Inl e'"
    by (auto intro: sys_search_fatal)
qed

theorem open_failure_skip_or_abort_witness:
  "(1::nat) < TREE_DEPTH
   \<and> filp_open plain_vfs (ds_path gone_state) = Inl (- ENOENT)
   \<and> search_directory plain_vfs gone_state 1 =
        Some (0, log_event (Open_failed 1 ''/r/gone'' (- ENOENT))
                   ((log_event (Walk 1 ''/r/gone'') gone_state)\<lparr>ds_status := - ENOENT\<rparr>))
   \<and> ds_isrecursive gone_state
   \<and> \<not> (0 < ds_results gone_state \<and> has_flag gone_state SEARCH_STOPATFIRST)
   \<and> descend_entry (\<lambda>d. search_directory plain_vfs d 1) 2 (CHR ''d'') ''gone''
          SEARCH_MATCH_FAILURE gone_state =
        Some (Continue,
              (log_event (Open_failed 1 ''/r/gone'' (- ENOENT))
                 (log_event (Walk 1 ''/r/gone'') gone_state))
                \<lparr>ds_status := 0, ds_path := ''/r''\<rparr>)
   \<and> Open_failed 1 ''/e/bad'' (- 5)
        \<in> set (run_trace (sys_search plain_vfs ''/e'' ''a'' 0 demo_mem 100))
   \<and> run_outcome (sys_search plain_vfs ''/e'' ''a'' 0 demo_mem 100) = Some (Inl (- 5))
   \<and> filp_open skip_vfs ''/t/locked'' = Inl (- EACCES)
   \<and> match_pathname ''/locked'' ''a'' = Some SEARCH_MATCH_FAILURE
   \<and> entry_loop skip_vfs (\<lambda>d. search_directory skip_vfs d 1) demo_top 2
          [(CHR ''d'', ''locked''), (CHR ''o'', ''a'')] top_state =
       entry_loop skip_vfs (\<lambda>d. search_directory skip_vfs d 1) demo_top 2
          [(CHR ''o'', ''a'')]
          (top_state\<lparr>ds_trace := [Walk 1 ''/t/locked'', Open_failed 1 ''/t/locked'' (- EACCES)]\<rparr>)
   \<and> map_option (\<lambda>x. (fst x, ds_results (snd x), ds_trace (snd x)))
         (entry_loop skip_vfs (\<lambda>d. search_directory skip_vfs d 1) demo_top 2
            [(CHR ''d'', ''locked''), (CHR ''o'', ''a'')] top_state) =
       Some (Continue, 1,
             [Walk 1 ''/t/locked'', Open_failed 1 ''/t/locked'' (- 13), Copy_result ''0|a||'' 0])
   \<and> readdir_loop skip_vfs (\<lambda>d. search_directory skip_vfs d 1) demo_top
          [(0, [(4, ''locked''), (8, ''a'')]), (0, [(8, ''b'')])] top_state =
       readdir_loop skip_vfs (\<lambda>d. search_directory skip_vfs d 1) demo_top [(0, [(8, ''b'')])]
         (snd (the (entry_loop skip_vfs (\<lambda>d. search_directory skip_vfs d 1) demo_top 2
            [(CHR ''d'', ''locked''), (CHR ''o'', ''a'')] top_state)))
   \<and> roots_loop skip_vfs True [''/t'', ''/r''] (init_search ''?'' 0 demo_mem 100) =
       roots_loop skip_vfs True [''/r'']
         (snd (the (search_directory skip_vfs
            ((init_search ''?'' 0 demo_mem 100)\<lparr>ds_path := ''/t'', ds_base := 0\<rparr>) 0)))
   \<and> run_outcome (sys_search skip_vfs ''/t|/r'' ''?'' 0 demo_mem 100) = Some (Inr 4)
   \<and> run_trace (sys_search skip_vfs ''/t|/r'' ''?'' 0 demo_mem 100) =
       [Walk 0 ''/t'', Open 0 ''/t'', Walk 1 ''/t/locked'', Open_failed 1 ''/t/locked'' (- 13),
        Copy_result ''0|a||'' 0, Copy_result ''0|b||'' 0, Close 0,
        Walk 0 ''/r'', Open 0 ''/r'', Copy_result ''0|a||'' 0, Walk 1 ''/r/sub'',
        Open 1 ''/r/sub'', Copy_result ''0|a||'' 0, Close 1, Walk 1 ''/r/gone'',
        Open_failed 1 ''/r/gone'' (- 2), Close 0]"
proof -
  have n: "(1::nat) < TREE_DEPTH" by (simp add: TREE_DEPTH_def)
  have op: "filp_open plain_vfs (ds_path gone_state) = Inl (- ENOENT)"
    by (simp add: gone_state_def demo_state_def plain_vfs_def)
  have rec: "ds_isrecursive gone_state"
    and ns: "\<not> (0 < ds_results gone_state \<and> has_flag gone_state SEARCH_STOPATFIRST)"
    and path: "ds_path gone_state = ''/r/gone''"
    by (simp_all add: gone_state_def demo_state_def)
  obtain r s where
    run: "sys_search plain_vfs ''/e'' ''a'' 0 demo_mem 100 = Some (r, s)" and
    ev: "Open_failed 1 ''/e/bad'' (- 5) \<in> set (ds_trace s)"
    by (simp add: walker_eval demo_defs)
  note inst = open_failure_skip_or_abort
    [where n = 1 and v = plain_vfs and ds = gone_state and e = "- ENOENT" and t = "CHR ''d''"
       and entry = "''gone''" and how = SEARCH_MATCH_FAILURE and dir = 2
       and paths = "''/e''" and pattern = "''a''" and flags = 0 and buf = demo_mem and len = 100
       and r = r and s = s and m = 1 and p = "''/e/bad''" and e' = "- 5"]
  from inst n op have sd: "search_directory plain_vfs gone_state 1 =
        Some (0, log_event (Open_failed 1 (ds_path gone_state) (- ENOENT))
                   ((log_event (Walk 1 (ds_path gone_state)) gone_state)\<lparr>ds_status := - ENOENT\<rparr>))"
    by simp
  from inst n op rec ns
  have de: "descend_entry (\<lambda>d. search_directory plain_vfs d 1) 2 (CHR ''d'') ''gone''
          SEARCH_MATCH_FAILURE gone_state =
        Some (Continue,
              (log_event (Open_failed 1 (ds_path gone_state) (- ENOENT))
                 (log_event (Walk 1 (ds_path gone_state)) gone_state))
                \<lparr>ds_status := 0, ds_path := take 2 (ds_path gone_state)\<rparr>)"
    by simp
  from inst run ev have ab: "r = Inl (- 5)" by (simp add: errno_defs)
  let ?ds = "top_state\<lparr>ds_path := ''/t/locked''\<rparr>"
  let ?init = "init_search ''?'' 0 demo_mem 100"
  let ?loop = "entry_loop skip_vfs (\<lambda>d. search_directory skip_vfs d 1) demo_top 2
            [(CHR ''d'', ''locked''), (CHR ''o'', ''a'')] top_state"
  have op2: "filp_open skip_vfs (ds_path ?ds) = Inl (- EACCES)"
    by (simp add: skip_vfs_def)
  have how: "match_pathname ''/locked'' ''a'' = Some SEARCH_MATCH_FAILURE"
    by (simp add: matcher_eval)
  obtain w where
    walk: "search_directory skip_vfs (?init\<lparr>ds_path := ''/t'', ds_base := 0\<rparr>) 0 = Some (0, w)"
    and w: "ds_flags w = 0"
    by (simp add: walker_eval demo_defs skip_defs)
  obtain b where batch: "?loop = Some (Continue, b)"
    by (simp add: walker_eval demo_defs skip_defs)
  have ents: "snd (vfs_readdir [(4, ''locked''), (8, ''a'')] (0, []))
                = [(CHR ''d'', ''locked''), (CHR ''o'', ''a'')]"
    by (simp add: search_filldir_def SEARCH_BUF_def PATH_MAX_def DT_DIR_def)
  have top: "top_state\<lparr>ds_status := 0\<rparr> = top_state" "length (ds_path top_state) = 2"
    by (simp_all add: top_state_def demo_state_def)
  note inst2 = open_failure_skip_or_abort
    [where n = 1 and v = skip_vfs and ds = ?ds and e = "- EACCES" and t = "CHR ''d''"
       and entry = "''locked''" and how = SEARCH_MATCH_FAILURE and dir = 2
       and ?ds0.0 = top_state and fp = demo_top and es = "[(CHR ''o'', ''a'')]"
       and root = "''/t''" and rest = "[''/r'']" and dsr = ?init and dsr' = w
       and offered = "[(4, ''locked''), (8, ''a'')]" and batches = "[(0, [(8, ''b'')])]"
       and dsb = top_state and dsb' = b]
  from inst2 [THEN conjunct2, THEN conjunct2, THEN conjunct1] n op2 how
  have sib: "entry_loop skip_vfs (\<lambda>d. search_directory skip_vfs d 1) demo_top 2
          [(CHR ''d'', ''locked''), (CHR ''o'', ''a'')] top_state =
       entry_loop skip_vfs (\<lambda>d. search_directory skip_vfs d 1) demo_top 2
          [(CHR ''o'', ''a'')]
          (top_state\<lparr>ds_trace := [Walk 1 ''/t/locked'', Open_failed 1 ''/t/locked'' (- EACCES)]\<rparr>)"
    by (simp add: top_state_def demo_state_def PATH_MAX_def has_flag_def log_event_def
          del: entry_loop.simps)
  from inst2 [THEN conjunct2, THEN conjunct2, THEN conjunct2, THEN conjunct1] batch
  have rd: "readdir_loop skip_vfs (\<lambda>d. search_directory skip_vfs d 1) demo_top
          [(0, [(4, ''locked''), (8, ''a'')]), (0, [(8, ''b'')])] top_state =
       readdir_loop skip_vfs (\<lambda>d. search_directory skip_vfs d 1) demo_top [(0, [(8, ''b'')])] b"
    by (simp only: ents top) simp
  from inst2 [THEN conjunct2, THEN conjunct2, THEN conjunct2, THEN conjunct2, THEN conjunct1]
    walk w
  have roots: "roots_loop skip_vfs True [''/t'', ''/r''] ?init = roots_loop skip_vfs True [''/r''] w"
    by (simp add: PATH_MAX_def has_flag_def del: roots_loop.simps)
  have ev1: "map_option (\<lambda>x. (fst x, ds_results (snd x), ds_trace (snd x)))
         (entry_loop skip_vfs (\<lambda>d. search_directory skip_vfs d 1) demo_top 2
            [(CHR ''d'', ''locked''), (CHR ''o'', ''a'')] top_state) =
       Some (Continue, 1,
             [Walk 1 ''/t/locked'', Open_failed 1 ''/t/locked'' (- 13), Copy_result ''0|a||'' 0])"
    by (simp add: walker_eval demo_defs skip_defs)
  have ev2: "run_outcome (sys_search skip_vfs ''/t|/r'' ''?'' 0 demo_mem 100) = Some (Inr 4)
   \<and> run_trace (sys_search skip_vfs ''/t|/r'' ''?'' 0 demo_mem 100) =
       [Walk 0 ''/t'', Open 0 ''/t'', Walk 1 ''/t/locked'', Open_failed 1 ''/t/locked'' (- 13),
        Copy_result ''0|a||'' 0, Copy_result ''0|b||'' 0, Close 0,
        Walk 0 ''/r'', Open 0 ''/r'', Copy_result ''0|a||'' 0, Walk 1 ''/r/sub'',
        Open 1 ''/r/sub'', Copy_result ''0|a||'' 0, Close 1, Walk 1 ''/r/gone'',
        Open_failed 1 ''/r/gone'' (- 2), Close 0]"
    by (simp add: walker_eval demo_defs skip_defs)
  from op2 have op2': "filp_open skip_vfs ''/t/locked'' = Inl (- EACCES)" by simp
  from n op rec ns sd de ab run ev op2' how sib rd batch roots walk ev1 ev2 show ?thesis
    by (simp add: path run_trace_def run_outcome_def
          del: entry_loop.simps readdir_loop.simps roots_loop.simps)
qed

text \<open>
  C10. The skip applies at depth 0 as well. When the open of a root fails with one of
  the four errors in a pattern search, \<open>search_directory\<close> at depth 0 returns 0, the loop
  over the roots goes on with the next root, and a call with this single root returns
  the match count 0.
\<close>

lemma strsep_all_single: "CHR ''|'' \<notin> set root \<Longrightarrow> strsep_all root = [root]"
  by (induction root) auto

theorem root_open_failure_skipped:
  assumes rec: "e = - ENOENT \<or> e = - EPERM \<or> e = - EACCES \<or> e = - ENODEV"
    and op: "filp_open v root = Inl e" and fits: "length root \<le> PATH_MAX"
  shows "search_directory v (ds\<lparr>ds_path := root, ds_base := 0\<rparr>) 0 = Some (0, skipped_root e root ds)
   \<and> (\<not> (0 < ds_results ds \<and> has_flag ds SEARCH_STOPATFIRST) \<longrightarrow>
        roots_loop v True (root # rest) ds = roots_loop v True rest (skipped_root e root ds))
   \<and> (access_ok v len \<and> kmalloc_ds v \<and> kmalloc_dirs v \<and> getname v paths = Inr root
        \<and> CHR ''|'' \<notin> set root \<and> getname v pattern = Inr kp \<and> ispattern kp \<longrightarrow>
        sys_search v paths pattern flags buf len =
          Some (Inr 0, skipped_root e root (init_search kp flags buf len)))"
proof -
  have sd: "search_directory v (ds\<lparr>ds_path := root, ds_base := 0\<rparr>) 0 = Some (0, skipped_root e root ds)"
    for ds
    using rec search_directory_open_failed [of 0 v "ds\<lparr>ds_path := root, ds_base := 0\<rparr>" e] op
    by (auto simp: TREE_DEPTH_def skipped_root_def)
  have loop: "roots_loop v True (root # rest) ds = roots_loop v True rest (skipped_root e root ds)"
    if "\<not> (0 < ds_results ds \<and> has_flag ds SEARCH_STOPATFIRST)" for ds rest
    using that fits sd [of ds] by (auto simp: Let_def skipped_root_def)
  have "sys_search v paths pattern flags buf len =
          Some (Inr 0, skipped_root e root (init_search kp flags buf len))"
    if "access_ok v len" "kmalloc_ds v" "kmalloc_dirs v" "getname v paths = Inr root"
      "CHR ''|'' \<notin> set root" "getname v pattern = Inr kp" "ispattern kp"
  proof -
    have rl: "roots_loop v True [root] (init_search kp flags buf len)
            = Some (Finished, skipped_root e root (init_search kp flags buf len))"
      by (subst loop) (simp_all add: init_search_def has_flag_def)
    have fin: "finish_search v (skipped_root e root (init_search kp flags buf len))
            = (Inr 0, skipped_root e root (init_search kp flags buf len))"
      by (simp add: finish_search_def skipped_root_def init_search_def)
    from that show ?thesis
      by (simp add: sys_search_def Let_def strsep_all_single rl fin del: roots_loop.simps)
  qed
  with sd loop show ?thesis by blast
qed

theorem root_open_failure_skipped_witness:
  "filp_open plain_vfs ''/q'' = Inl (- ENOENT) \<and> length ''/q'' \<le> PATH_MAX
   \<and> search_directory plain_vfs (demo_state\<lparr>ds_path := ''/q'', ds_base := 0\<rparr>) 0
        = Some (0, skipped_root (- ENOENT) ''/q'' demo_state)
   \<and> roots_loop plain_vfs True [''/q'', ''/r''] demo_state
        = roots_loop plain_vfs True [''/r''] (skipped_root (- ENOENT) ''/q'' demo_state)
   \<and> sys_search plain_vfs ''/q'' ''a'' 0 demo_mem 100
        = Some (Inr 0, skipped_root (- ENOENT) ''/q'' (init_search ''a'' 0 demo_mem 100))"
proof -
  have op: "filp_open plain_vfs ''/q'' = Inl (- ENOENT)" by (simp add: plain_vfs_def)
  have fits: "length ''/q'' \<le> PATH_MAX" by (simp add: PATH_MAX_def)
  have e: "- ENOENT = - ENOENT \<or> - ENOENT = - EPERM \<or> - ENOENT = - EACCES \<or> - ENOENT = - ENODEV"
    by simp
  note inst = root_open_failure_skipped [OF e op fits,
      of demo_state "[''/r'']" 100 "''/q''" "''a''" "''a''" 0 demo_mem]
  have "\<not> (0 < ds_results demo_state \<and> has_flag demo_state SEARCH_STOPATFIRST)"
    by (simp add: demo_state_def)
  moreover have "access_ok plain_vfs 100 \<and> kmalloc_ds plain_vfs \<and> kmalloc_dirs plain_vfs
      \<and> getname plain_vfs ''/q'' = Inr ''/q'' \<and> CHR ''|'' \<notin> set ''/q''
      \<and> getname plain_vfs ''a'' = Inr ''a'' \<and> ispattern ''a''"
    by (simp add: plain_vfs_def ispattern_def)
  ultimately show ?thesis using inst op fits by blast
qed

section \<open>The native search\<close>

text \<open>
  C9, evaluated where the code departs from it. The directory \<open>/n5\<close> is opened, its
  filesystem has the native search hook, and the hook returns \<open>-EIO\<close>. The call returns
  \<open>-EIO\<close>, and its trace ends with the successful open: \<open>filp_close\<close> is not called,
  because the branch leaves by \<open>goto out\<close> where every other failure after the open
  leaves by \<open>goto exit\<close>.
\<close>

theorem native_error_leaves_directory_open:
  "run_outcome (sys_search native_vfs ''/n5'' ''a'' 0 demo_mem 100) = Some (Inl (- 5))
   \<and> run_trace (sys_search native_vfs ''/n5'' ''a'' 0 demo_mem 100)
        = [Walk 0 ''/n5'', Open 0 ''/n5'']"
  by (simp add: walker_eval demo_defs)


section \<open>Stopping at the first match\<close>

lemma enter_directory_Inr:
  assumes "enter_directory v ds n = Inr (fp, ds3)"
  shows "filp_open v (ds_path ds) = Inr fp" "ds_results ds3 = ds_results ds"
    "ds_flags ds3 = ds_flags ds" "ds_umem ds3 = ds_umem ds" "ds_next ds3 = ds_next ds"
    "ds_trace ds3 = ds_trace ds @ [Walk n (ds_path ds), Open n (ds_path ds)]"
    "ds_status ds3 = 0"
  using assms
  by (auto simp: enter_directory_def Let_def abspath_def
           split: if_splits sum.splits prod.splits)

lemma enter_directory_Inl:
  assumes "enter_directory v ds n = Inl (st, ds')"
  shows "ds_results ds' = ds_results ds" "ds_flags ds' = ds_flags ds"
    "ds_umem ds' = ds_umem ds" "ds_next ds' = ds_next ds"
    "\<exists>evs. ds_trace ds' = ds_trace ds @ evs \<and> (\<forall>e \<in> set evs. \<forall>r c. e \<noteq> Copy_result r c)"
  using assms
  by (auto simp: enter_directory_def Let_def abspath_def
           split: if_splits sum.splits prod.splits)

lemma has_flag_cong: "ds_flags a = ds_flags b \<Longrightarrow> has_flag a f = has_flag b f"
  by (simp add: has_flag_def)

lemma copy_search_result_count:
  assumes "copy_search_result v ds p stat = (st, ds')"
  shows "ds_results ds' = ds_results ds \<and> ds_flags ds' = ds_flags ds"
  using assms by (auto elim!: copy_search_result_cases)

lemma recorded_iff: "recorded e \<longleftrightarrow> (\<exists>r. e = Copy_result r 0)"
  by (cases e) auto

lemma unrecorded_append [simp]:
  "list_ex recorded (xs @ ys) \<longleftrightarrow> list_ex recorded xs \<or> list_ex recorded ys"
  by (induction xs) auto

lemma halts_unrecorded: "\<not> list_ex recorded tr \<Longrightarrow> halts_after_first (tr @ [e])"
  by (induction tr) auto

lemma halts_unrecorded_more:
  "\<not> list_ex recorded tr \<Longrightarrow> \<not> list_ex recorded evs \<Longrightarrow> halts_after_first (tr @ evs)"
  by (induction tr) (auto, induction evs, auto)

lemma halts_close: "halts_after_first tr \<Longrightarrow> halts_after_first (tr @ [Close n])"
  by (induction tr) auto

lemma report_match_count:
  assumes "report_match v fp entry ds = (fl, ds')" "stop_none ds"
  shows "fl = Exit \<and> stop_some (ds_status ds') ds'"
  using assms(1)
proof (cases rule: report_match_cases)
  case (lookup st)
  with assms(2) halts_unrecorded_more [of "ds_trace ds" "[]"] show ?thesis
    by (simp add: stop_none_def stop_some_def)
next
  case (copy p stat st dsc)
  from copy_search_result_count [OF copy(1)] copy_search_result_trace [OF copy(1)]
    copy(2-) assms(2) halts_unrecorded [of "ds_trace ds"]
  show ?thesis
    by (simp add: stop_none_def stop_some_def has_flag_def)
next
  case (reported p stat dsc)
  from copy_search_result_count [OF reported(1)] copy_search_result_trace [OF reported(1)]
    reported(2-) assms(2) halts_unrecorded [of "ds_trace ds"]
  show ?thesis
    by (simp add: stop_none_def stop_some_def has_flag_def)
qed

lemma native_search_count:
  assumes "native_search fp ds = Some (b, ds')" "stop_none ds"
    and "\<And>search mount rel pat flags m nx len.
           f_search fp = Some search \<Longrightarrow> flags AND SEARCH_STOPATFIRST \<noteq> 0 \<Longrightarrow>
           fst (search mount rel pat flags m nx len) \<le> 1"
  shows "stop_some (ds_status ds') ds'"
proof -
  from assms(1) obtain search where s: "f_search fp = Some search"
    by (auto simp: native_search_def split: option.splits)
  let ?r = "search (f_mount fp) (drop (length (f_mount fp)) (ds_path ds)) (ds_pattern ds)
              (ds_flags ds) (ds_umem ds) (ds_next ds) (ds_len ds)"
  from assms(2) have "ds_flags ds AND SEARCH_STOPATFIRST \<noteq> 0"
    by (simp add: stop_none_def has_flag_def)
  from assms(3) [OF s this] have le: "fst ?r \<le> 1" .
  from assms(1) s have "ds_results ds' = ds_results ds + fst ?r"
    "ds_flags ds' = ds_flags ds" "fst ?r < 0 \<longrightarrow> ds_status ds' = fst ?r"
    by (auto simp: native_search_def Let_def split: if_splits prod.splits)
  with le assms(2) native_search_trace [OF assms(1)]
    halts_unrecorded_more [of "ds_trace ds" "[]"]
  show ?thesis
    by (auto simp: stop_none_def stop_some_def has_flag_def)
qed

lemma search_directory_count:
  assumes "search_directory v ds n = Some (st, ds')" "stop_none ds"
    "providers_honour_stop_at_first v"
  shows "stop_some st ds'"
proof (rule search_directory_rule
    [where Pre = "\<lambda>n. stop_none" and Run = "\<lambda>n ds. stop_none"
       and Out = "\<lambda>n ds cur. stop_some (ds_status cur) cur"
       and Post = "\<lambda>n ds. stop_some" and v = v,
     OF _ _ _ _ _ _ _ _ _ assms(2,1)])
  show "stop_some st ds'" if "stop_none ds" "enter_directory v ds n = Inl (st, ds')"
    for n ds st ds'
  proof -
    from enter_directory_Inl(5) [OF that(2)] obtain evs where
      tr: "ds_trace ds' = ds_trace ds @ evs" and "\<forall>e \<in> set evs. \<forall>r c. e \<noteq> Copy_result r c"
      by blast
    then have "\<not> list_ex recorded evs"
      by (auto simp: list_ex_iff recorded_iff)
    with that(1) enter_directory_Inl(1,2) [OF that(2)] tr
      halts_unrecorded_more [of "ds_trace ds" evs]
    show ?thesis
      by (simp add: stop_none_def stop_some_def has_flag_def)
  qed
  show "stop_none ds3" if "stop_none ds" "enter_directory v ds n = Inr (fp, ds3)"
    for n ds fp ds3
    using that enter_directory_Inr(2,3,6) [OF that(2)]
    by (simp add: stop_none_def has_flag_def)
  show "stop_some (ds_status ds4) (if b then ds4 else log_event (Close n) ds4)"
    if "stop_none ds" "enter_directory v ds n = Inr (fp, ds3)" "native_search fp ds3 = Some (b, ds4)"
    for n ds fp ds3 b ds4
  proof -
    from that(1) enter_directory_Inr(2,3,6) [OF that(2)] have "stop_none ds3"
      by (simp add: stop_none_def has_flag_def)
    moreover have "fst (search mount rel pat flags m nx len) \<le> 1"
      if "f_search fp = Some search" "flags AND SEARCH_STOPATFIRST \<noteq> 0"
      for search mount rel pat flags m nx len
      using assms(3) enter_directory_Inr(1) [OF \<open>enter_directory v ds n = Inr (fp, ds3)\<close>] that
      unfolding providers_honour_stop_at_first_def by blast
    ultimately have "stop_some (ds_status ds4) ds4"
      using native_search_count [OF that(3)] by blast
    then show ?thesis by (simp add: stop_some_def halts_close)
  qed
  show "stop_none (cur\<lparr>ds_path := p\<rparr>)" if "stop_none cur" for cur p
    using that by (simp add: stop_none_def)
  show "case fl of Continue \<Rightarrow> stop_none cur' | Exit \<Rightarrow> stop_some (ds_status cur') cur'"
    if "stop_none cur" "report_match v fp entry cur = (fl, cur')" for fp cur entry fl cur'
    using report_match_count [OF that(2,1)] by simp
  show "stop_none (cur\<lparr>ds_status := 0\<rparr>)
        \<and> stop_some (ds_status (cur\<lparr>ds_status := st\<rparr>)) (cur\<lparr>ds_status := st\<rparr>)"
    if "stop_none cur" for cur st
    using that halts_unrecorded_more [of "ds_trace cur" "[]"]
    by (simp add: stop_none_def stop_some_def)
  show "stop_none cur" if "stop_none cur" for cur by fact
  show "if st \<noteq> 0 \<or> 0 < ds_results cur' \<and> has_flag cur' SEARCH_STOPATFIRST
        then stop_some (ds_status (cur'\<lparr>ds_status := st\<rparr>)) (cur'\<lparr>ds_status := st\<rparr>)
        else stop_none (cur'\<lparr>ds_status := st\<rparr>)"
    if "stop_some st cur'" for st cur'
    using that by (auto simp: stop_none_def stop_some_def)
  show "stop_some (ds_status cur) (log_event (Close n) cur)"
    if "stop_some (ds_status cur) cur" for n cur
    using that by (simp add: stop_some_def halts_close)
qed

lemma copy_search_result_stop:
  assumes "copy_search_result v ds p stat = (st, ds')" "stop_none ds"
  shows "has_flag ds' SEARCH_STOPATFIRST \<and> ds_results ds' = 0
         \<and> halts_after_first (ds_trace ds')
         \<and> (st \<noteq> 0 \<longrightarrow> \<not> list_ex recorded (ds_trace ds'))"
  using copy_search_result_count [OF assms(1)] copy_search_result_trace [OF assms(1)]
    assms(2) halts_unrecorded [of "ds_trace ds"]
  by (simp add: stop_none_def has_flag_def)

lemma search_literal_count:
  assumes "search_literal v ds = Some (rf, ds')" "stop_none ds"
  shows "case rf of Abort st \<Rightarrow> halts_after_first (ds_trace ds')
         | Stop_roots \<Rightarrow> stop_some 0 ds' | Next_root \<Rightarrow> stop_none ds'"
proof -
  have upd: "stop_none (ds\<lparr>ds_base := b, ds_path := q\<rparr>)" for b q
    using assms(2) by (simp add: stop_none_def)
  have h: "halts_after_first (ds_trace ds)"
    using assms(2) halts_unrecorded_more [of "ds_trace ds" "[]"] by (simp add: stop_none_def)
  from assms h show ?thesis
    unfolding search_literal_def Let_def
    by (auto split: if_splits prod.splits dest!: copy_search_result_stop [OF _ upd]
             simp: stop_none_def stop_some_def)
qed

lemma roots_loop_count:
  assumes "roots_loop v ispat roots ds = Some (le, ds')" "stop_none ds"
    "providers_honour_stop_at_first v"
  shows "case le of Finished \<Rightarrow> stop_some 0 ds' | Failed st \<Rightarrow> halts_after_first (ds_trace ds')"
proof (rule roots_loop_rule
    [where Loop = stop_none and Done = "stop_some 0"
       and Fail = "\<lambda>st ds'. halts_after_first (ds_trace ds')"
       and v = v, OF _ _ _ assms(2,1)])
  show "if st \<noteq> 0 then halts_after_first (ds_trace ds')
        else if 0 < ds_results ds' \<and> has_flag ds' SEARCH_STOPATFIRST then stop_some 0 ds'
        else stop_none ds'"
    if "stop_none ds" "search_directory v (ds\<lparr>ds_path := c, ds_base := 0\<rparr>) 0 = Some (st, ds')"
    for ds c st ds'
    using search_directory_count [OF that(2) _ assms(3)] that(1)
    by (auto simp: stop_none_def stop_some_def)
  show "case rf of Abort st \<Rightarrow> halts_after_first (ds_trace ds')
        | Stop_roots \<Rightarrow> stop_some 0 ds' | Next_root \<Rightarrow> stop_none ds'"
    if "stop_none ds" "search_literal v (ds\<lparr>ds_path := c\<rparr>) = Some (rf, ds')" for ds c rf ds'
    using search_literal_count [OF that(2)] that(1) by (simp add: stop_none_def)
  show "stop_some 0 ds" if "stop_none ds" for ds
    using that halts_unrecorded_more [of "ds_trace ds" "[]"]
    by (simp add: stop_none_def stop_some_def)
qed

text \<open>
  C6, as stated, fails for subtrees delegated to a native provider: the walker adds the
  provider's return value to the match count as it is. With \<open>SEARCH_STOPATFIRST\<close> (flag
  value 1) and a provider that returns 2 for \<open>/n2\<close>, the call returns the count 2.
\<close>

theorem stop_at_first_count_counterexample:
  "(1::int) AND SEARCH_STOPATFIRST \<noteq> 0
   \<and> run_outcome (sys_search native_vfs ''/n2'' ''a'' 1 demo_mem 100) = Some (Inr 2)"
  by (simp add: walker_eval demo_defs)

text \<open>
  C6, amended. With \<open>SEARCH_STOPATFIRST\<close> set, and provided every native provider that
  is called with this flag returns at most 1, the walker halts after the first record it
  emits: in the trace of the call only releases of directories follow that record, over
  all roots and all depths. When the call returns the match count, the count is 0 or 1,
  matches reported by native providers included.
\<close>

theorem stop_at_first_count:
  assumes "flags AND SEARCH_STOPATFIRST \<noteq> 0"
    and "providers_honour_stop_at_first v"
    and "sys_search v paths pattern flags buf len = Some (r, s)"
  shows "halts_after_first (ds_trace s) \<and> (r = Inr c \<longrightarrow> c = 0 \<or> c = 1)"
  using sys_search_run [OF assms(3)]
proof (elim disjE exE conjE)
  fix e kp assume "r = Inl e" "s = init_search kp flags buf len"
  then show ?thesis by (simp add: init_search_def)
next
  fix ispat roots kp pat' le ds3
  assume rl: "roots_loop v ispat roots ((init_search kp flags buf len)\<lparr>ds_pattern := pat'\<rparr>)
                = Some (le, ds3)"
    and res: "case le of Failed st \<Rightarrow> r = Inl st \<and> s = ds3
              | Finished \<Rightarrow> (r, s) = finish_search v ds3"
  from assms(1) have "stop_none ((init_search kp flags buf len)\<lparr>ds_pattern := pat'\<rparr>)"
    by (simp add: stop_none_def has_flag_def init_search_def)
  note post = roots_loop_count [OF rl this assms(2)]
  show ?thesis
  proof (cases le)
    case Finished
    with res have "ds_trace s = ds_trace ds3" "r = Inr c \<longrightarrow> c = ds_results ds3"
      by (auto simp: finish_search_def split: if_splits prod.splits)
    with post Finished show ?thesis by (auto simp: stop_some_def)
  next
    case (Failed st)
    with res post show ?thesis by simp
  qed
qed

theorem stop_at_first_count_witness:
  "(1::int) AND SEARCH_STOPATFIRST \<noteq> 0
   \<and> providers_honour_stop_at_first honest_vfs
   \<and> fst (the (f_search demo_honest) ''/'' ''h'' ''a'' 0 demo_mem 0 100) = 2
   \<and> run_outcome (sys_search honest_vfs ''/h|/r'' ''a'' 1 demo_mem 100) = Some (Inr 1)
   \<and> run_trace (sys_search honest_vfs ''/h|/r'' ''a'' 1 demo_mem 100) =
       [Walk 0 ''/h'', Open 0 ''/h'', Close 0]
   \<and> run_outcome (sys_search honest_vfs ''/r|/h'' ''a'' 1 demo_mem 100) = Some (Inr 1)
   \<and> run_trace (sys_search honest_vfs ''/r|/h'' ''a'' 1 demo_mem 100) =
       [Walk 0 ''/r'', Open 0 ''/r'', Copy_result ''0|a||'' 0, Close 0]
   \<and> halts_after_first (run_trace (sys_search honest_vfs ''/r|/h'' ''a'' 1 demo_mem 100))"
proof -
  have f: "(1::int) AND SEARCH_STOPATFIRST \<noteq> 0" by (simp add: SEARCH_STOPATFIRST_def)
  have p: "providers_honour_stop_at_first honest_vfs"
    by (auto simp: providers_honour_stop_at_first_def honest_vfs_def demo_honest_def plain_vfs_def
          demo_root_def demo_sub_def demo_err_def split: if_splits)
  have h: "fst (the (f_search demo_honest) ''/'' ''h'' ''a'' 0 demo_mem 0 100) = 2"
    by (simp add: demo_honest_def)
  obtain r1 s1 where run1: "sys_search honest_vfs ''/h|/r'' ''a'' 1 demo_mem 100 = Some (r1, s1)"
    and t1: "ds_trace s1 = [Walk 0 ''/h'', Open 0 ''/h'', Close 0]"
    and o1: "r1 = Inr 1"
    by (simp add: walker_eval demo_defs honest_vfs_def demo_honest_def)
  obtain r2 s2 where run2: "sys_search honest_vfs ''/r|/h'' ''a'' 1 demo_mem 100 = Some (r2, s2)"
    and t2: "ds_trace s2 = [Walk 0 ''/r'', Open 0 ''/r'', Copy_result ''0|a||'' 0, Close 0]"
    and r2: "r2 = Inr 1"
    by (simp add: walker_eval demo_defs honest_vfs_def demo_honest_def)
  from stop_at_first_count [OF f p run1, of 1] o1 have "halts_after_first (ds_trace s1)" by simp
  moreover from stop_at_first_count [OF f p run2, of 1]
  have "halts_after_first (ds_trace s2)" by simp
  ultimately show ?thesis using f p h run1 run2 t1 t2 r2 o1
    by (simp add: run_outcome_def run_trace_def)
qed


section \<open>The layout of the output buffer\<close>

text \<open>
  \<open>copy_search_result\<close> copies a record and two terminators to \<open>ds->next\<close> and advances
  \<open>ds->next\<close> by the length of the record only, so the next record starts where the two
  terminators were. The lemmas below carry the invariant \<open>buffer_holds\<close> through the walker
  and the loop over the roots.
\<close>

lemma emitted_append: "emitted (xs @ ys) = emitted xs @ emitted ys"
  by (induction xs rule: emitted.induct) auto

lemma copy_to_user_written:
  "copy_to_user w m to bs = (0, m') \<Longrightarrow>
     m' i = (if to \<le> i \<and> i < to + int (length bs) then bs ! nat (i - to) else m i)"
proof (induction bs arbitrary: m to)
  case Nil
  then show ?case by auto
next
  case (Cons b bs)
  from Cons.prems have w: "w to" and rec: "copy_to_user w (m(to := b)) (to + 1) bs = (0, m')"
    by (auto split: if_splits)
  from Cons.IH [OF rec]
  have ih: "m' i = (if to + 1 \<le> i \<and> i < to + 1 + int (length bs) then bs ! nat (i - (to + 1))
                    else (m(to := b)) i)" .
  show ?case
  proof (cases "i = to")
    case True
    with ih show ?thesis by simp
  next
    case False
    show ?thesis
    proof (cases "to + 1 \<le> i \<and> i < to + 1 + int (length bs)")
      case True
      then have "nat (i - to) = Suc (nat (i - (to + 1)))" by linarith
      with ih True show ?thesis by simp
    next
      case out: False
      with False ih show ?thesis by auto
    qed
  qed
qed

lemma result_string_nonempty: "result_string v ds p stat \<noteq> []"
  by (simp add: result_string_def)

lemma buffer_holds_simps [simp]:
  "buffer_holds buf (ds\<lparr>ds_status := a\<rparr>) = buffer_holds buf ds"
  "buffer_holds buf (ds\<lparr>ds_results := b\<rparr>) = buffer_holds buf ds"
  "buffer_holds buf (ds\<lparr>ds_path := c\<rparr>) = buffer_holds buf ds"
  "buffer_holds buf (ds\<lparr>ds_base := d\<rparr>) = buffer_holds buf ds"
  by (simp_all add: buffer_holds_def)

lemma buffer_holds_log:
  "emitted [ev] = [] \<Longrightarrow> buffer_holds buf (log_event ev ds) = buffer_holds buf ds"
  by (simp add: buffer_holds_def emitted_append)

lemma copy_search_result_buffer:
  assumes c: "copy_search_result v ds p stat = (st, ds')" and inv: "buffer_holds buf ds"
  shows "st \<noteq> 0 \<or> buffer_holds buf ds'"
  using c
proof (cases rule: copy_search_result_cases)
  case range
  then show ?thesis by (simp add: ERANGE_def)
next
  case (fault left m)
  then show ?thesis by (simp add: EFAULT_def)
next
  case (copied m)
  let ?r = "result_string v ds p stat"
  let ?old = "emitted (ds_trace ds)"
  note w = copy_to_user_written [OF copied(2)]
  from inv have nx: "ds_next ds = int (length ?old)"
    and old: "\<And>i. i < length ?old \<Longrightarrow> ds_umem ds (int i) = ?old ! i"
    by (simp_all add: buffer_holds_def)
  have tr: "emitted (ds_trace ds') = ?old @ ?r"
    by (simp add: copied(4) emitted_append)
  have ne: "?old @ ?r \<noteq> []" using result_string_nonempty [of v ds p stat] by simp
  have m1: "m (int i) = (?old @ ?r) ! i" if "i < length (?old @ ?r)" for i
  proof (cases "i < length ?old")
    case True
    with w [of "int i"] nx old [OF True] show ?thesis by (simp add: nth_append)
  next
    case False
    with that have "i - length ?old < length ?r" by simp
    moreover from False have "nat (int i - int (length ?old)) = i - length ?old" by simp
    ultimately show ?thesis using w [of "int i"] nx False that
      by (simp add: nth_append)
  qed
  have suc: "nat (int (length ?r) + 1) = Suc (length ?r)" by linarith
  have m2: "m (int (length (?old @ ?r))) = NUL" "m (int (length (?old @ ?r)) + 1) = NUL"
    using w [of "int (length (?old @ ?r))"] w [of "int (length (?old @ ?r)) + 1"] nx
    by (simp_all add: nth_append suc)
  have "buffer_holds buf ds'"
    unfolding buffer_holds_def tr
    using ne m1 m2 nx by (auto simp: copied(4))
  then show ?thesis ..
qed

lemma report_match_buffer:
  assumes "report_match v fp entry ds = (fl, ds')" "buffer_holds buf ds"
  shows "case fl of Continue \<Rightarrow> buffer_holds buf ds'
         | Exit \<Rightarrow> ds_status ds' \<noteq> 0 \<or> buffer_holds buf ds'"
  using assms(1)
proof (cases rule: report_match_cases)
  case (lookup st)
  then show ?thesis by simp
next
  case (copy p stat st dsc)
  then show ?thesis by simp
next
  case (reported p stat dsc)
  from copy_search_result_buffer [OF reported(1), of buf] assms(2)
  have "buffer_holds buf dsc" by simp
  with reported show ?thesis by simp
qed

lemma search_directory_buffer:
  assumes "search_directory v ds n = Some (st, ds')" "buffer_holds buf ds" "no_native_search v"
  shows "st \<noteq> 0 \<or> buffer_holds buf ds'"
proof (rule search_directory_rule
    [where Pre = "\<lambda>n. buffer_holds buf" and Run = "\<lambda>n ds. buffer_holds buf"
       and Out = "\<lambda>n ds cur. ds_status cur \<noteq> 0 \<or> buffer_holds buf cur"
       and Post = "\<lambda>n ds st ds'. st \<noteq> 0 \<or> buffer_holds buf ds'" and v = v,
     OF _ _ _ _ _ _ _ _ _ assms(2,1)])
  show "st \<noteq> 0 \<or> buffer_holds buf ds'"
    if "buffer_holds buf ds" "enter_directory v ds n = Inl (st, ds')" for n ds st ds'
  proof -
    from enter_directory_Inl [OF that(2)] obtain evs where
      "ds_umem ds' = ds_umem ds" "ds_next ds' = ds_next ds"
      "ds_trace ds' = ds_trace ds @ evs" "\<forall>e \<in> set evs. \<forall>r c. e \<noteq> Copy_result r c"
      by blast
    moreover from this(4) have "emitted evs = []"
      by (induction evs rule: emitted.induct) auto
    ultimately show ?thesis using that(1)
      by (auto simp: buffer_holds_def emitted_append split: if_splits)
  qed
  show "buffer_holds buf ds3"
    if "buffer_holds buf ds" "enter_directory v ds n = Inr (fp, ds3)" for n ds fp ds3
    using that(1) enter_directory_Inr(4,5,6) [OF that(2)]
    by (auto simp: buffer_holds_def emitted_append split: if_splits)
  show "ds_status ds4 \<noteq> 0 \<or> buffer_holds buf (if b then ds4 else log_event (Close n) ds4)"
    if "enter_directory v ds n = Inr (fp, ds3)" "native_search fp ds3 = Some (b, ds4)"
    for n ds fp ds3 b ds4
    using assms(3) enter_directory_Inr(1) [OF that(1)] that(2)
    by (auto simp: no_native_search_def native_search_def)
  show "buffer_holds buf (cur\<lparr>ds_path := p\<rparr>)" if "buffer_holds buf cur" for cur p
    using that by simp
  show "case fl of Continue \<Rightarrow> buffer_holds buf cur'
        | Exit \<Rightarrow> ds_status cur' \<noteq> 0 \<or> buffer_holds buf cur'"
    if "buffer_holds buf cur" "report_match v fp entry cur = (fl, cur')" for fp cur entry fl cur'
    using report_match_buffer [OF that(2,1)] .
  show "buffer_holds buf (cur\<lparr>ds_status := 0\<rparr>)
        \<and> (ds_status (cur\<lparr>ds_status := st\<rparr>) \<noteq> 0 \<or> buffer_holds buf (cur\<lparr>ds_status := st\<rparr>))"
    if "buffer_holds buf cur" for cur st
    using that by simp
  show "buffer_holds buf cur" if "buffer_holds buf cur" for cur by fact
  show "if st \<noteq> 0 \<or> 0 < ds_results cur' \<and> has_flag cur' SEARCH_STOPATFIRST
        then ds_status (cur'\<lparr>ds_status := st\<rparr>) \<noteq> 0 \<or> buffer_holds buf (cur'\<lparr>ds_status := st\<rparr>)
        else buffer_holds buf (cur'\<lparr>ds_status := st\<rparr>)"
    if "st \<noteq> 0 \<or> buffer_holds buf cur'" for st cur'
    using that by auto
  show "ds_status cur \<noteq> 0 \<or> buffer_holds buf (log_event (Close n) cur)"
    if "ds_status cur \<noteq> 0 \<or> buffer_holds buf cur" for n cur
    using that by (auto simp: buffer_holds_log)
qed

lemma search_literal_buffer:
  assumes "search_literal v ds = Some (rf, ds')" "buffer_holds buf ds"
  shows "case rf of Abort st \<Rightarrow> True | Stop_roots \<Rightarrow> buffer_holds buf ds'
         | Next_root \<Rightarrow> buffer_holds buf ds'"
  using assms unfolding search_literal_def Let_def
  by (auto split: if_splits prod.splits dest!: copy_search_result_buffer [where buf = buf])

lemma roots_loop_buffer:
  assumes "roots_loop v ispat roots ds = Some (le, ds')" "buffer_holds buf ds"
    "no_native_search v"
  shows "case le of Finished \<Rightarrow> buffer_holds buf ds' | Failed st \<Rightarrow> True"
proof (rule roots_loop_rule
    [where Loop = "buffer_holds buf" and Done = "buffer_holds buf" and Fail = "\<lambda>st ds'. True"
       and v = v, OF _ _ _ assms(2,1)])
  show "if st \<noteq> 0 then True
        else if 0 < ds_results ds' \<and> has_flag ds' SEARCH_STOPATFIRST then buffer_holds buf ds'
        else buffer_holds buf ds'"
    if "buffer_holds buf ds" "search_directory v (ds\<lparr>ds_path := c, ds_base := 0\<rparr>) 0 = Some (st, ds')"
    for ds c st ds'
    using search_directory_buffer [OF that(2) _ assms(3), of buf] that(1) by auto
  show "case rf of Abort st \<Rightarrow> True | Stop_roots \<Rightarrow> buffer_holds buf ds'
        | Next_root \<Rightarrow> buffer_holds buf ds'"
    if "buffer_holds buf ds" "search_literal v (ds\<lparr>ds_path := c\<rparr>) = Some (rf, ds')"
    for ds c rf ds'
    using search_literal_buffer [OF that(2), of buf] that(1) by simp
qed

text \<open>
  C2, as stated, fails: not every emitted record is followed by two terminators in the
  buffer of a successful search. The search for \<open>a\<close> under \<open>/r\<close> returns two matches and
  emits the record \<open>0|a||\<close> twice; the buffer holds \<open>0|a||0|a|\<close> and then three terminators,
  and the byte after the first record (index 5) is the first byte of the second record, not
  a terminator.
\<close>

theorem records_not_terminator_delimited_counterexample:
  "run_outcome (sys_search plain_vfs ''/r'' ''a'' 0 demo_mem 100) = Some (Inr 2)
   \<and> run_trace (sys_search plain_vfs ''/r'' ''a'' 0 demo_mem 100) =
       [Walk 0 ''/r'', Open 0 ''/r'', Copy_result ''0|a||'' 0, Walk 1 ''/r/sub'',
        Open 1 ''/r/sub'', Copy_result ''0|a||'' 0, Close 1, Walk 1 ''/r/gone'',
        Open_failed 1 ''/r/gone'' (- 2), Close 0]
   \<and> run_buffer (sys_search plain_vfs ''/r'' ''a'' 0 demo_mem 100) 12 =
       ''0|a||0|a|'' @ [NUL, NUL, NUL]
   \<and> run_buffer (sys_search plain_vfs ''/r'' ''a'' 0 demo_mem 100) 12 ! 5 \<noteq> NUL"
  by (simp add: walker_eval demo_defs upt_conv_Cons)

text \<open>
  C2, amended. When no directory opened has a native search and the system call returns
  the count of matches, the buffer is untouched if no record was emitted; otherwise it holds
  the emitted records back to back, with the last byte of the last record (its trailing
  \<open>|\<close>) replaced by a terminator and two more terminators after it: only the end of the
  whole output is marked by terminators, the records are not delimited by them.
\<close>

theorem output_buffer_layout:
  assumes "no_native_search v"
    and "sys_search v paths pattern flags buf len = Some (Inr c, s)"
  shows "if emitted (ds_trace s) = [] then ds_umem s = buf
         else map (ds_umem s) (map int [0 ..< length (emitted (ds_trace s)) + 2])
                = butlast (emitted (ds_trace s)) @ [NUL, NUL, NUL]"
  using sys_search_run [OF assms(2)]
proof (elim disjE exE conjE)
  fix e kp assume "Inr c = (Inl e :: int + int)"
  then show ?thesis by simp
next
  fix ispat roots kp pat' le ds3
  assume rl: "roots_loop v ispat roots ((init_search kp flags buf len)\<lparr>ds_pattern := pat'\<rparr>)
                = Some (le, ds3)"
    and res: "case le of Failed st \<Rightarrow> Inr c = (Inl st :: int + int) \<and> s = ds3
              | Finished \<Rightarrow> (Inr c, s) = finish_search v ds3"
  have "buffer_holds buf ((init_search kp flags buf len)\<lparr>ds_pattern := pat'\<rparr>)"
    by (simp add: buffer_holds_def init_search_def)
  note post = roots_loop_buffer [OF rl this assms(1)]
  from res have fin: "le = Finished" by (cases le) auto
  with post have inv: "buffer_holds buf ds3" by simp
  from res fin have fs: "finish_search v ds3 = (Inr c, s)" by simp
  let ?rs = "emitted (ds_trace ds3)"
  from inv have nx: "ds_next ds3 = int (length ?rs)"
    and old: "\<And>i. i < length ?rs \<Longrightarrow> ds_umem ds3 (int i) = ?rs ! i"
    by (simp_all add: buffer_holds_def)
  show ?thesis
  proof (cases "?rs = []")
    case True
    with nx fs inv show ?thesis by (simp add: finish_search_def buffer_holds_def)
  next
    case False
    with nx have n0: "ds_next ds3 \<noteq> 0" by simp
    from inv False nx have nul: "ds_umem ds3 (int (length ?rs)) = NUL"
      "ds_umem ds3 (int (length ?rs) + 1) = NUL"
      by (simp_all add: buffer_holds_def)
    from fs n0 obtain m where
      cp: "copy_to_user (user_writable v) (ds_umem ds3) (ds_next ds3 - 1) [NUL, NUL] = (0, m)"
      and s: "s = ds3\<lparr>ds_umem := m\<rparr>"
      by (auto simp: finish_search_def split: prod.splits if_splits simp del: copy_to_user.simps)
    note w = copy_to_user_written [OF cp]
    have tr: "emitted (ds_trace s) = ?rs" by (simp add: s)
    from False have pos: "0 < length ?rs" by simp
    have mi: "m (int i) = (if i = length ?rs - 1 \<or> i = length ?rs then NUL
                           else ds_umem ds3 (int i))" for i
    proof -
      consider (final) "i = length ?rs - 1" | (nul) "i = length ?rs"
        | (other) "i < length ?rs - 1 \<or> length ?rs < i"
        by linarith
      then show ?thesis
      proof cases
        case final
        with pos nx have "int i = ds_next ds3 - 1"
          by (cases "emitted (ds_trace ds3)") simp_all
        with w [of "int i"] final show ?thesis by simp
      next
        case nul
        with nx have "int i = ds_next ds3 - 1 + 1" by simp
        with w [of "int i"] nul show ?thesis by simp
      next
        case other
        with pos nx have "\<not> (ds_next ds3 - 1 \<le> int i \<and> int i < ds_next ds3 - 1 + 2)"
          by (cases "emitted (ds_trace ds3)") auto
        with w [of "int i"] other show ?thesis by auto
      qed
    qed
    from False obtain bl x where rs: "?rs = bl @ [x]"
      by (metis append_butlast_last_id)
    have "map m (map int [0 ..< length ?rs + 2]) = butlast ?rs @ [NUL, NUL, NUL]"
    proof (rule nth_equalityI)
      show "length (map m (map int [0 ..< length ?rs + 2])) = length (butlast ?rs @ [NUL, NUL, NUL])"
        by (simp add: rs)
    next
      fix i assume "i < length (map m (map int [0 ..< length ?rs + 2]))"
      then have i: "i < length ?rs + 2" by simp
      then consider "i < length bl" | "i = length bl" | "i = Suc (length bl)"
        | "i = Suc (Suc (length bl))"
        unfolding rs by (simp only: length_append list.size) linarith
      then have "m (int i) = (butlast ?rs @ [NUL, NUL, NUL]) ! i"
      proof cases
        case 1
        with old [of i] mi [of i] show ?thesis
          by (simp add: rs nth_append)
      next
        case 2
        with mi [of i] show ?thesis by (simp add: rs nth_append)
      next
        case 3
        with mi [of i] show ?thesis by (simp add: rs nth_append)
      next
        case 4
        with mi [of i] nul show ?thesis by (simp add: rs nth_append)
      qed
      with i show "map m (map int [0 ..< length ?rs + 2]) ! i = (butlast ?rs @ [NUL, NUL, NUL]) ! i"
        by (simp del: upt_Suc)
    qed
    with False tr s show ?thesis by simp
  qed
qed

theorem output_buffer_layout_witness:
  "no_native_search plain_vfs
   \<and> run_outcome (sys_search plain_vfs ''/r'' ''a'' 0 demo_mem 100) = Some (Inr 2)
   \<and> emitted (run_trace (sys_search plain_vfs ''/r'' ''a'' 0 demo_mem 100)) = ''0|a||0|a||''
   \<and> run_buffer (sys_search plain_vfs ''/r'' ''a'' 0 demo_mem 100) 12 =
       ''0|a||0|a|'' @ [NUL, NUL, NUL]"
proof -
  have nn: "no_native_search plain_vfs"
    by (auto simp: no_native_search_def plain_vfs_def demo_root_def demo_sub_def demo_err_def
          split: if_splits)
  obtain c s where run: "sys_search plain_vfs ''/r'' ''a'' 0 demo_mem 100 = Some (Inr c, s)"
    and c: "c = 2" and em: "emitted (ds_trace s) = ''0|a||0|a||''"
    by (simp add: walker_eval demo_defs)
  from output_buffer_layout [OF nn run] em
  have "map (ds_umem s) (map int [0 ..< 12]) = ''0|a||0|a|'' @ [NUL, NUL, NUL]"
    by (simp add: upt_conv_Cons)
  with nn run c em show ?thesis
    by (simp add: run_outcome_def run_trace_def run_buffer_def upt_conv_Cons)
qed

end
